theory Spec2Isabelle
  imports Main "HOL-Library.Char_ord" "HOL-Library.List_Lexorder"
begin

section \<open>Python values used by app.py\<close>

text \<open>
  A Python \<open>str\<close> is modelled as a \<open>string\<close>: a list of characters, each one a code
  point below 256. \<open>str.isspace\<close> (the test behind \<open>str.strip()\<close> and the regular
  expression class \<open>\s\<close>) holds on that range for the code points 9 to 13, 28 to 32,
  133 and 160.
\<close>

definition py_isspace :: "char \<Rightarrow> bool" where
  "py_isspace c =
     (let n = (of_char c :: nat)
      in (9 \<le> n \<and> n \<le> 13) \<or> (28 \<le> n \<and> n \<le> 32) \<or> n = 133 \<or> n = 160)"

text \<open>\<open>s.strip()\<close>: leading and trailing whitespace removed.\<close>

definition py_strip :: "string \<Rightarrow> string" where
  "py_strip s = rev (dropWhile py_isspace (rev (dropWhile py_isspace s)))"

text \<open>\<open>s.lstrip(c)\<close> for a one-character argument: every leading \<open>c\<close> removed.\<close>

definition py_lstrip :: "char \<Rightarrow> string \<Rightarrow> string" where
  "py_lstrip c s = dropWhile (\<lambda>x. x = c) s"

text \<open>
  \<open>s.split(sep)\<close> for a one-character separator: the pieces between the separators, in
  order; empty pieces are kept, and a string without the separator is its only piece.
\<close>

fun py_split :: "char \<Rightarrow> string \<Rightarrow> string list" where
  "py_split sep [] = [[]]"
| "py_split sep (c # cs) =
     (if c = sep then [] # py_split sep cs
      else (case py_split sep cs of
              [] \<Rightarrow> [[c]]
            | w # ws \<Rightarrow> (c # w) # ws))"

text \<open>\<open>s.split(sep, 1)\<close>: at most one split, at the first separator.\<close>

definition py_split1 :: "char \<Rightarrow> string \<Rightarrow> string list" where
  "py_split1 sep s =
     (case dropWhile (\<lambda>c. c \<noteq> sep) s of
        [] \<Rightarrow> [s]
      | _ # rest \<Rightarrow> [takeWhile (\<lambda>c. c \<noteq> sep) s, rest])"

text \<open>\<open>sub in s\<close> and \<open>s.endswith(c)\<close>.\<close>

fun starts_with :: "string \<Rightarrow> string \<Rightarrow> bool" where
  "starts_with [] s = True"
| "starts_with (p # ps) [] = False"
| "starts_with (p # ps) (c # cs) = (p = c \<and> starts_with ps cs)"

fun py_in :: "string \<Rightarrow> string \<Rightarrow> bool" where
  "py_in sub [] = (sub = [])"
| "py_in sub (c # cs) = (starts_with sub (c # cs) \<or> py_in sub cs)"

definition py_endswith :: "string \<Rightarrow> char \<Rightarrow> bool" where
  "py_endswith s c = (s \<noteq> [] \<and> last s = c)"

text \<open>The exceptions the code can meet, as values.\<close>

datatype error =
    HTTPException nat string
  | Transport_error
  | Engine_error
  | Timeout_error
  | Validation_error
  | Index_error
  | Value_error

text \<open>\<open>xs[i]\<close>: negative indices count from the end; out of range raises IndexError.\<close>

definition py_getitem :: "'a list \<Rightarrow> int \<Rightarrow> error + 'a" where
  "py_getitem xs i =
     (if 0 \<le> i \<and> i < int (length xs) then Inr (xs ! nat i)
      else if i < 0 \<and> - int (length xs) \<le> i then Inr (xs ! nat (int (length xs) + i))
      else Inl Index_error)"

section \<open>Cookie Translator\<close>

text \<open>
  The block that both \<open>_playwright_fetch_html\<close> (lines 59 to 69) and
  \<open>_playwright_collect_reels\<close> (lines 86 to 95) run on the cookie header.
\<close>

record cookie =
  name :: string
  val :: string
  domain :: string
  path :: string

text \<open>
  The \<open>for part in cookie_header.split(";")\<close> loop; \<open>cookies\<close> is the list built so far.
  Unpacking \<open>name, value = part.split("=", 1)\<close> raises ValueError unless the split has
  exactly two pieces.
\<close>

fun cookie_loop :: "string list \<Rightarrow> cookie list \<Rightarrow> error + cookie list" where
  "cookie_loop [] cookies = Inr cookies"
| "cookie_loop (part # parts) cookies =
     (let part' = py_strip part
      in if \<not> py_in ''='' part' then cookie_loop parts cookies
         else (case py_split1 (CHR ''='') part' of
                 [n, v] \<Rightarrow>
                   cookie_loop parts
                     (cookies @ [\<lparr>name = py_strip n, val = py_strip v,
                                  domain = ''.instagram.com'', path = ''/''\<rparr>])
               | _ \<Rightarrow> Inl Value_error))"

text \<open>\<open>if cookie_header:\<close> skips the loop for \<open>None\<close> and for the empty string.\<close>

definition parse_cookies :: "string option \<Rightarrow> error + cookie list" where
  "parse_cookies cookie_header =
     (case cookie_header of
        None \<Rightarrow> Inr []
      | Some h \<Rightarrow> if h = [] then Inr [] else cookie_loop (py_split (CHR '';'') h) [])"

text \<open>
  The contract in the spec's words: split on \<open>;\<close>, trim, drop the fragments without
  \<open>=\<close>, split the others at the first \<open>=\<close>.
\<close>

definition spec_cookie_of_fragment :: "string \<Rightarrow> cookie" where
  "spec_cookie_of_fragment f =
     \<lparr>name = py_strip (takeWhile (\<lambda>c. c \<noteq> CHR ''='') f),
      val = py_strip (tl (dropWhile (\<lambda>c. c \<noteq> CHR ''='') f)),
      domain = ''.instagram.com'', path = ''/''\<rparr>"

definition spec_cookies :: "string \<Rightarrow> cookie list" where
  "spec_cookies h =
     map spec_cookie_of_fragment
       (filter (\<lambda>f. CHR ''='' \<in> set f) (map py_strip (py_split (CHR '';'') h)))"

section \<open>Filename suggestion\<close>

text \<open>
  \<open>vid_id = mp4.split("/")[-1].split("?")[0]\<close> and \<open>f"{vid_id}.mp4"\<close>
  (lines 146 to 147 and 159 to 160).
\<close>

definition vid_id_of :: "string \<Rightarrow> error + string" where
  "vid_id_of mp4 =
     (case py_getitem (py_split (CHR ''/'') mp4) (- 1) of
        Inl e \<Rightarrow> Inl e
      | Inr seg \<Rightarrow> py_getitem (py_split (CHR ''?'') seg) 0)"

definition filename_of :: "string \<Rightarrow> error + string" where
  "filename_of mp4 =
     (case vid_id_of mp4 of
        Inl e \<Rightarrow> Inl e
      | Inr vid_id \<Rightarrow> Inr (vid_id @ ''.mp4''))"

text \<open>
  A closed form of \<open>mp4.split("/")[-1]\<close> and of \<open>seg.split("?")[0]\<close>, used to state what
  the two lines compute.
\<close>

definition after_last_slash :: "string \<Rightarrow> string" where
  "after_last_slash u = rev (takeWhile (\<lambda>c. c \<noteq> CHR ''/'') (rev u))"

definition before_first_query :: "string \<Rightarrow> string" where
  "before_first_query s = takeWhile (\<lambda>c. c \<noteq> CHR ''?'') s"

section \<open>Metadata Extractor\<close>

text \<open>
  \<open>re.I\<close> compares characters up to case. On code points below 256 the letters with a
  case partner in that range are A to Z and the Latin-1 capitals 192 to 222 (without the
  multiplication sign 215); \<open>py_lower\<close> sends each to its partner, 32 higher.
\<close>

definition py_lower :: "char \<Rightarrow> char" where
  "py_lower c =
     (let n = (of_char c :: nat)
      in if (65 \<le> n \<and> n \<le> 90) \<or> (192 \<le> n \<and> n \<le> 222 \<and> n \<noteq> 215)
         then char_of (n + 32) else c)"

text \<open>
  The pattern of line 41 uses three kinds of item: a literal character, \<open>\s+\<close>, and the
  group \<open>([^"]+)\<close>. \<open>Many1\<close> is a greedy \<open>+\<close> over a character class, \<open>Group_many1\<close> the same
  inside the capturing group 1.
\<close>

datatype category = Space | Not_quote

fun in_category :: "category \<Rightarrow> char \<Rightarrow> bool" where
  "in_category Space c = py_isspace c"
| "in_category Not_quote c = (c \<noteq> CHR 0x22)"

datatype item = Lit char | Many1 category | Group_many1 category

text \<open>
  The matcher is the backtracking one of \<open>re\<close>: a greedy \<open>+\<close> first takes the longest run of
  the class and gives back one character at a time until the rest of the pattern matches.
  The third argument is the text captured by group 1 so far.
\<close>

fun first_some :: "'a option list \<Rightarrow> 'a option" where
  "first_some [] = None"
| "first_some (None # rs) = first_some rs"
| "first_some (Some r # rs) = Some r"

fun match_items :: "item list \<Rightarrow> string \<Rightarrow> string option \<Rightarrow> string option option" where
  "match_items [] s g = Some g"
| "match_items (Lit c # r) s g =
     (case s of
        [] \<Rightarrow> None
      | x # xs \<Rightarrow> if py_lower x = py_lower c then match_items r xs g else None)"
| "match_items (Many1 cat # r) s g =
     first_some (map (\<lambda>k. match_items r (drop k s) g)
                  (rev [1 ..< Suc (length (takeWhile (in_category cat) s))]))"
| "match_items (Group_many1 cat # r) s g =
     first_some (map (\<lambda>k. match_items r (drop k s) (Some (take k s)))
                  (rev [1 ..< Suc (length (takeWhile (in_category cat) s))]))"

text \<open>
  \<open>re.search\<close> tries the pattern at every position from left to right, the end of the text
  included, and returns the first match found; the result is the content of group 1.
\<close>

fun re_search :: "item list \<Rightarrow> string \<Rightarrow> string option option" where
  "re_search p [] = match_items p [] None"
| "re_search p (c # cs) =
     (case match_items p (c # cs) None of
        Some g \<Rightarrow> Some g
      | None \<Rightarrow> re_search p cs)"

text \<open>
  \<open>_extract_og_video\<close> (lines 39 to 42): the pattern
  \<open><meta\s+property="og:video"\s+content="([^"]+)"\<close> with \<open>re.I\<close>, and
  \<open>m.group(1) if m else None\<close>.
\<close>

definition og_video_pattern :: "item list" where
  \<open>og_video_pattern =
     map Lit ''<meta'' @ [Many1 Space] @ map Lit ''property="og:video"'' @ [Many1 Space]
     @ map Lit ''content="'' @ [Group_many1 Not_quote] @ [Lit (CHR 0x22)]\<close>

definition extract_og_video :: "string \<Rightarrow> string option" where
  "extract_og_video html =
     (case re_search og_video_pattern html of
        None \<Rightarrow> None
      | Some g \<Rightarrow> g)"

text \<open>
  The marker in the spec's words: the text at a position is an og:video meta marker with
  content \<open>v\<close> when it reads \<open><meta\<close>, white space, \<open>property="og:video"\<close>, white space,
  \<open>content="\<close>, the non-empty quote-free text \<open>v\<close> and a closing quote, letters compared up
  to case.
\<close>

definition ci_equal :: "string \<Rightarrow> string \<Rightarrow> bool" where
  "ci_equal a b = (map py_lower a = map py_lower b)"

definition spec_marker_here :: "string \<Rightarrow> string \<Rightarrow> bool" where
  \<open>spec_marker_here s v =
     (\<exists>a w1 b w2 c rest.
        s = a @ w1 @ b @ w2 @ c @ v @ [CHR 0x22] @ rest
        \<and> ci_equal a ''<meta''
        \<and> w1 \<noteq> [] \<and> list_all py_isspace w1
        \<and> ci_equal b ''property="og:video"''
        \<and> w2 \<noteq> [] \<and> list_all py_isspace w2
        \<and> ci_equal c ''content="''
        \<and> v \<noteq> [] \<and> CHR 0x22 \<notin> set v)\<close>

section \<open>The external collaborators\<close>

text \<open>
  The HTTP client, the browser engine and the URL validation of the response model are
  outside \<open>app.py\<close>. An \<open>engine\<close> fixes how each of their calls ends: \<open>None\<close> (or \<open>Inr\<close>) when
  the call returns, \<open>Some e\<close> (or \<open>Inl e\<close>) when it raises \<open>e\<close>.
  \<open>client_get url cookie\<close> is \<open>client.get(url)\<close> with the \<open>Cookie\<close> header \<open>cookie\<close>, giving the
  status code and the body; \<open>eval_links n\<close> is the \<open>eval_on_selector_all\<close> call made after \<open>n\<close>
  scrolls, and \<open>scroll_by n\<close> the scroll and the wait of lines 125 to 126 that follow it;
  \<open>http_url_ok\<close> is the validation of an \<open>HttpUrl\<close> field.
\<close>

record engine =
  client_get :: "string \<Rightarrow> string option \<Rightarrow> error + nat \<times> string"
  http_url_ok :: "string \<Rightarrow> bool"
  launch :: "error option"
  new_context :: "error option"
  add_cookies :: "cookie list \<Rightarrow> error option"
  new_page :: "error option"
  goto :: "string \<Rightarrow> error option"
  wait_for_timeout :: "nat \<Rightarrow> error option"
  content :: "string \<Rightarrow> error + string"
  eval_links :: "nat \<Rightarrow> error + string list"
  scroll_by :: "nat \<Rightarrow> error option"
  context_close :: "error option"
  browser_close :: "error option"

text \<open>
  What a run leaves behind: how often \<open>_playwright_fetch_html\<close> was entered, how often the
  \<open>with sync_playwright()\<close> block was entered and left, and how often \<open>context.close()\<close> and
  \<open>browser.close()\<close> were called.
\<close>

record world =
  rendered_fetches :: nat
  engine_starts :: nat
  engine_stops :: nat
  context_closes :: nat
  browser_closes :: nat

section \<open>Fast-Path Resolver\<close>





section \<open>Rendered-Page Resolver\<close>

text \<open>
  Lines 59 to 69: the cookies are parsed and, when there are any, installed.
\<close>

definition install_cookies :: "engine \<Rightarrow> string option \<Rightarrow> error option" where
  "install_cookies eng cookie_header =
     (case parse_cookies cookie_header of
        Inl e \<Rightarrow> Some e
      | Inr cookies \<Rightarrow> if cookies = [] then None else add_cookies eng cookies)"

text \<open>
  Lines 56 to 74 (and 84 to 99): launch, new context, cookies, new page, navigation, settle
  wait. The first call that raises ends the sequence.
\<close>

definition open_page :: "engine \<Rightarrow> string \<Rightarrow> string option \<Rightarrow> nat \<Rightarrow> error option" where
  "open_page eng url cookie_header settle =
     first_some [launch eng, new_context eng, install_cookies eng cookie_header,
                 new_page eng, goto eng url, wait_for_timeout eng settle]"

text \<open>
  \<open>context.close(); browser.close()\<close> (lines 76 to 77 and 128 to 129): two plain statements;
  when the first raises the second is not reached.
\<close>

definition close_session :: "engine \<Rightarrow> world \<Rightarrow> world \<times> error option" where
  "close_session eng w =
     (let w1 = w\<lparr>context_closes := context_closes w + 1\<rparr>
      in case context_close eng of
           Some e \<Rightarrow> (w1, Some e)
         | None \<Rightarrow> (w1\<lparr>browser_closes := browser_closes w1 + 1\<rparr>, browser_close eng))"

text \<open>
  \<open>with sync_playwright() as p:\<close> runs its body and leaves the block on every path, normal
  or raising.
\<close>

definition with_playwright ::
  "(world \<Rightarrow> world \<times> (error + 'a)) \<Rightarrow> world \<Rightarrow> world \<times> (error + 'a)" where
  "with_playwright body w =
     (case body (w\<lparr>engine_starts := engine_starts w + 1\<rparr>) of
        (w1, r) \<Rightarrow> (w1\<lparr>engine_stops := engine_stops w1 + 1\<rparr>, r))"

text \<open>\<open>_playwright_fetch_html\<close> (lines 54 to 78).\<close>

definition fetch_body ::
  "engine \<Rightarrow> string \<Rightarrow> string option \<Rightarrow> world \<Rightarrow> world \<times> (error + string)" where
  "fetch_body eng url cookie_header w =
     (case open_page eng url cookie_header 1500 of
        Some e \<Rightarrow> (w, Inl e)
      | None \<Rightarrow>
          (case content eng url of
             Inl e \<Rightarrow> (w, Inl e)
           | Inr html \<Rightarrow>
               (case close_session eng w of
                  (w1, Some e) \<Rightarrow> (w1, Inl e)
                | (w1, None) \<Rightarrow> (w1, Inr html))))"

definition playwright_fetch_html ::
  "engine \<Rightarrow> string \<Rightarrow> string option \<Rightarrow> world \<Rightarrow> world \<times> (error + string)" where
  "playwright_fetch_html eng url cookie_header w =
     with_playwright (fetch_body eng url cookie_header)
       (w\<lparr>rendered_fetches := rendered_fetches w + 1\<rparr>)"

section \<open>Resolution Orchestrator\<close>







text \<open>
  A small engine for the examples: the HTTP client answers \<open>get\<close>, the rendered page is
  \<open>page\<close>, navigation ends as \<open>nav\<close>, every URL validates and no other call raises.
\<close>

definition stub_engine :: "error + nat \<times> string \<Rightarrow> error + string \<Rightarrow> error option \<Rightarrow> engine" where
  "stub_engine get page nav =
     \<lparr>client_get = (\<lambda>url cookie. get), http_url_ok = (\<lambda>url. True), launch = None,
      new_context = None, add_cookies = (\<lambda>cookies. None), new_page = None,
      goto = (\<lambda>url. nav), wait_for_timeout = (\<lambda>ms. None), content = (\<lambda>url. page),
      eval_links = (\<lambda>n. Inr []), scroll_by = (\<lambda>n. None), context_close = None,
      browser_close = None\<rparr>"

definition fresh_world :: world where
  "fresh_world =
     \<lparr>rendered_fetches = 0, engine_starts = 0, engine_stops = 0, context_closes = 0,
      browser_closes = 0\<rparr>"

section \<open>Reel Collector\<close>

text \<open>Line 81: the listing page of the account.\<close>

definition reels_url :: "string \<Rightarrow> string" where
  "reels_url username =
     ''https://www.instagram.com/'' @ py_lstrip (CHR ''@'') (py_strip username) @ ''/reels/''"

text \<open>Lines 111 to 112: a link is made to end in a slash.\<close>

definition canonical :: "string \<Rightarrow> string" where
  "canonical href = (if py_endswith href (CHR ''/'') then href else href @ ''/'')"

text \<open>
  \<open>max_count and len(seen) >= max_count\<close> (lines 115 and 117): \<open>None\<close> and \<open>0\<close> are falsy,
  every other integer is compared with the size of the set.
\<close>

definition cap_reached :: "int option \<Rightarrow> string set \<Rightarrow> bool" where
  "cap_reached max_count seen =
     (case max_count of
        None \<Rightarrow> False
      | Some m \<Rightarrow> m \<noteq> 0 \<and> m \<le> int (card seen))"

text \<open>
  The \<open>for href in hrefs\<close> loop (lines 108 to 116) on the set \<open>seen\<close> and the counter \<open>new\<close>;
  the \<open>break\<close> of line 116 returns at once.
\<close>

fun harvest :: "int option \<Rightarrow> string list \<Rightarrow> string set \<Rightarrow> nat \<Rightarrow> string set \<times> nat" where
  "harvest max_count [] seen new = (seen, new)"
| "harvest max_count (href # hrefs) seen new =
     (if \<not> py_in ''/reel/'' href then harvest max_count hrefs seen new
      else if canonical href \<in> seen then harvest max_count hrefs seen new
      else if cap_reached max_count (insert (canonical href) seen)
           then (insert (canonical href) seen, new + 1)
           else harvest max_count hrefs (insert (canonical href) seen) (new + 1))"

definition idle_limit :: nat where
  "idle_limit = 15"

text \<open>Lines 119 to 122: the idle counter after a round that added \<open>new\<close> links.\<close>

definition next_idle :: "nat \<Rightarrow> nat \<Rightarrow> nat" where
  "next_idle new idle_rounds = (if new = 0 then idle_rounds + 1 else 0)"

text \<open>
  The \<open>while True\<close> loop (lines 102 to 126). \<open>n\<close> counts the scrolls made so far. The result
  is \<open>None\<close> when the loop never ends, and otherwise the number of scrolls made together
  with the exception raised or the set collected.
\<close>

partial_function (option) collect_loop ::
  "engine \<Rightarrow> int option \<Rightarrow> string set \<Rightarrow> nat \<Rightarrow> nat \<Rightarrow> (nat \<times> (error + string set)) option" where
  "collect_loop eng max_count seen idle_rounds n =
     (case eval_links eng n of
        Inl e \<Rightarrow> Some (n, Inl e)
      | Inr hrefs \<Rightarrow>
          (case harvest max_count hrefs seen 0 of
             (seen1, new) \<Rightarrow>
               if cap_reached max_count seen1 then Some (n, Inr seen1)
               else if idle_limit \<le> next_idle new idle_rounds then Some (n, Inr seen1)
               else (case scroll_by eng n of
                       Some e \<Rightarrow> Some (n, Inl e)
                     | None \<Rightarrow>
                         collect_loop eng max_count seen1 (next_idle new idle_rounds)
                           (n + 1))))"

text \<open>
  \<open>_playwright_collect_reels\<close> (lines 80 to 130): the page is opened, the loop runs, the
  session is closed and the set is returned sorted.
\<close>

definition collect_body ::
  "engine \<Rightarrow> string \<Rightarrow> int option \<Rightarrow> string option \<Rightarrow> world
     \<Rightarrow> (world \<times> (error + string set)) option" where
  "collect_body eng username max_count cookie_header w =
     (case open_page eng (reels_url username) cookie_header 1200 of
        Some e \<Rightarrow> Some (w, Inl e)
      | None \<Rightarrow>
          (case collect_loop eng max_count {} 0 0 of
             None \<Rightarrow> None
           | Some (n, Inl e) \<Rightarrow> Some (w, Inl e)
           | Some (n, Inr seen) \<Rightarrow>
               (case close_session eng w of
                  (w1, Some e) \<Rightarrow> Some (w1, Inl e)
                | (w1, None) \<Rightarrow> Some (w1, Inr seen))))"

definition playwright_collect_reels ::
  "engine \<Rightarrow> string \<Rightarrow> int option \<Rightarrow> string option \<Rightarrow> world
     \<Rightarrow> (world \<times> (error + string list)) option" where
  "playwright_collect_reels eng username max_count cookie_header w =
     (case collect_body eng username max_count cookie_header
             (w\<lparr>engine_starts := engine_starts w + 1\<rparr>) of
        None \<Rightarrow> None
      | Some (w1, Inl e) \<Rightarrow> Some (w1\<lparr>engine_stops := engine_stops w1 + 1\<rparr>, Inl e)
      | Some (w1, Inr seen) \<Rightarrow>
          Some (w1\<lparr>engine_stops := engine_stops w1 + 1\<rparr>, Inr (sorted_list_of_set seen)))"

text \<open>
  The canonical reel links of one harvested batch, of the round after \<open>k\<close> scrolls, and of
  all rounds from \<open>n\<close> to \<open>k\<close>.
\<close>

definition reel_links :: "string list \<Rightarrow> string set" where
  "reel_links hrefs = canonical ` {h \<in> set hrefs. py_in ''/reel/'' h}"

definition batch :: "engine \<Rightarrow> nat \<Rightarrow> string set" where
  "batch eng k = (case eval_links eng k of Inl e \<Rightarrow> {} | Inr hrefs \<Rightarrow> reel_links hrefs)"

definition discovered :: "engine \<Rightarrow> nat \<Rightarrow> nat \<Rightarrow> string set" where
  "discovered eng n k = (\<Union>j \<in> {n..k}. batch eng j)"

text \<open>
  An engine for the examples whose listing page shows \<open>hrefs\<close> before the first scroll and
  nothing afterwards.
\<close>

definition feed_engine :: "string list \<Rightarrow> engine" where
  "feed_engine hrefs =
     (stub_engine (Inl Transport_error) (Inl Engine_error) None)
       \<lparr>eval_links := (\<lambda>n. if n = 0 then Inr hrefs else Inr [])\<rparr>"

text \<open>A batch of \<open>N\<close> different reel links, for the examples.\<close>

definition numbered_links :: "nat \<Rightarrow> string list" where
  "numbered_links N = map (\<lambda>i. ''/reel/'' @ replicate i (CHR ''x'') @ ''/'') [0..<N]"

text \<open>
  The length that the spec gives to the output: the number \<open>d\<close> of distinct canonical links
  discovered, capped at the maximum if one is set.
\<close>

definition spec_capped_count :: "int option \<Rightarrow> nat \<Rightarrow> nat" where
  "spec_capped_count max_count d = (case max_count of None \<Rightarrow> d | Some m \<Rightarrow> min d (nat m))"

section \<open>Lemmas on the string operations\<close>

lemma py_split_nonempty: "py_split sep s \<noteq> []"
  by (induction s) (auto split: list.splits)

lemma length_py_split: "length (py_split sep s) = Suc (length (filter (\<lambda>c. c = sep) s))"
  by (induction s) (auto simp: py_split_nonempty split: list.splits)

lemma py_in_single: "py_in [c] s = (c \<in> set s)"
  by (induction s) auto

lemma hd_py_split: "hd (py_split sep s) = takeWhile (\<lambda>c. c \<noteq> sep) s"
  by (induction s) (auto simp: py_split_nonempty split: list.splits)

lemma py_split_no_sep: "sep \<notin> set s \<Longrightarrow> py_split sep s = [s]"
  by (induction s) (auto split: list.splits)

lemma last_py_split: "last (py_split sep s) = rev (takeWhile (\<lambda>c. c \<noteq> sep) (rev s))"
proof (induction s)
  case Nil
  then show ?case by simp
next
  case (Cons c cs)
  show ?case
  proof (cases "sep \<in> set cs")
    case True
    then have "takeWhile (\<lambda>c. c \<noteq> sep) (rev cs @ [c]) = takeWhile (\<lambda>c. c \<noteq> sep) (rev cs)"
      by (simp add: takeWhile_append1)
    moreover have "filter (\<lambda>c. c = sep) cs \<noteq> []"
      using True by (simp add: filter_empty_conv)
    then have "2 \<le> length (py_split sep cs)"
      by (simp add: length_py_split Suc_le_eq)
    then have "last (py_split sep (c # cs)) = last (py_split sep cs)"
      by (cases "py_split sep cs") auto
    ultimately show ?thesis using Cons by simp
  next
    case False
    have "takeWhile (\<lambda>c. c \<noteq> sep) (rev cs @ [c]) = rev cs @ takeWhile (\<lambda>c. c \<noteq> sep) [c]"
      using False by (intro takeWhile_append2) auto
    then show ?thesis using py_split_no_sep [OF False] by simp
  qed
qed

lemma getitem_first: "xs \<noteq> [] \<Longrightarrow> py_getitem xs 0 = Inr (hd xs)"
  by (cases xs) (simp_all add: py_getitem_def)

lemma getitem_last: "xs \<noteq> [] \<Longrightarrow> py_getitem xs (- 1) = Inr (last xs)"
  by (cases xs rule: rev_cases) (simp_all add: py_getitem_def nth_append)

lemma py_split1_found:
  "c \<in> set s \<Longrightarrow>
   py_split1 c s = [takeWhile (\<lambda>x. x \<noteq> c) s, tl (dropWhile (\<lambda>x. x \<noteq> c) s)]"
  by (induction s) (auto simp: py_split1_def split: list.splits)

section \<open>Cookie Translator: the loop against its contract\<close>

lemma cookie_loop_spec:
  "cookie_loop parts acc =
     Inr (acc @ map spec_cookie_of_fragment
                  (filter (\<lambda>f. CHR ''='' \<in> set f) (map py_strip parts)))"
  by (induction parts arbitrary: acc)
     (simp_all add: Let_def py_in_single py_split1_found spec_cookie_of_fragment_def)

lemma spec_cookies_empty: "spec_cookies [] = []"
  by (simp add: spec_cookies_def py_strip_def)

text \<open>
  C6. For every raw cookie header \<open>h\<close> the translator never raises: it returns the
  records that the contract describes (fragments split on \<open>;\<close>, trimmed, those without
  \<open>=\<close> dropped, the others split at their first \<open>=\<close>, with the fixed domain and
  path). The number of records is at most the number of \<open>;\<close>-delimited fragments,
  and \<open>a=1; b=2=x\<close> gives the two records \<open>a:1\<close> and \<open>b:2=x\<close>.
\<close>

theorem cookie_translator_contract:
  "parse_cookies (Some h) = Inr (spec_cookies h)
   \<and> length (spec_cookies h) \<le> length (py_split (CHR '';'') h)
   \<and> parse_cookies (Some ''a=1; b=2=x'') =
       Inr [\<lparr>name = ''a'', val = ''1'', domain = ''.instagram.com'', path = ''/''\<rparr>,
            \<lparr>name = ''b'', val = ''2=x'', domain = ''.instagram.com'', path = ''/''\<rparr>]"
proof (intro conjI)
  show "parse_cookies (Some h) = Inr (spec_cookies h)"
    by (simp add: parse_cookies_def cookie_loop_spec spec_cookies_def [symmetric]
          spec_cookies_empty)
  have "length (filter (\<lambda>f. CHR ''='' \<in> set f) (map py_strip (py_split (CHR '';'') h)))
          \<le> length (map py_strip (py_split (CHR '';'') h))"
    by (rule length_filter_le)
  then show "length (spec_cookies h) \<le> length (py_split (CHR '';'') h)"
    by (simp add: spec_cookies_def)
  show "parse_cookies (Some ''a=1; b=2=x'') =
       Inr [\<lparr>name = ''a'', val = ''1'', domain = ''.instagram.com'', path = ''/''\<rparr>,
            \<lparr>name = ''b'', val = ''2=x'', domain = ''.instagram.com'', path = ''/''\<rparr>]"
    by (simp add: parse_cookies_def Let_def py_split1_def py_strip_def py_isspace_def)
qed

section \<open>Filename suggestion: what the code derives\<close>

lemma vid_id_of_eq: "vid_id_of u = Inr (before_first_query (after_last_slash u))"
  by (simp add: vid_id_of_def getitem_last getitem_first py_split_nonempty last_py_split
        hd_py_split before_first_query_def after_last_slash_def)

text \<open>
  C5 does not hold of the code. The code takes the text after the last \<open>/\<close> of the media
  URL, cuts it at its first \<open>?\<close>, calls the result \<open>vid_id\<close> and appends \<open>.mp4\<close> to it,
  whether or not it already ends in \<open>.mp4\<close>. For the media URL
  \<open>https://x/abc123.mp4?sig=zzz\<close> the filename is therefore \<open>abc123.mp4.mp4\<close>, not the
  \<open>abc123.mp4\<close> of the claim: the extension is doubled.
\<close>

theorem filename_doubles_extension:
  "filename_of u = Inr (before_first_query (after_last_slash u) @ ''.mp4'')
   \<and> filename_of ''https://x/abc123.mp4?sig=zzz'' = Inr ''abc123.mp4.mp4''
   \<and> filename_of ''https://x/abc123.mp4?sig=zzz'' \<noteq> Inr ''abc123.mp4''"
  by (simp add: filename_of_def vid_id_of_eq)
     (simp add: before_first_query_def after_last_slash_def)

section \<open>Metadata Extractor: the first marker\<close>

lemma py_lower_code:
  "(of_char (py_lower x) :: nat) =
     (if (65 \<le> (of_char x :: nat) \<and> (of_char x :: nat) \<le> 90)
         \<or> (192 \<le> (of_char x :: nat) \<and> (of_char x :: nat) \<le> 222 \<and> (of_char x :: nat) \<noteq> 215)
      then of_char x + 32 else of_char x)"
  unfolding py_lower_def Let_def by (simp add: of_char_of)

lemma char_eq_code: "(x = y) = ((of_char x :: nat) = of_char y)"
  by simp

lemma py_lower_quote: "py_lower x = CHR 0x22 \<longleftrightarrow> x = CHR 0x22"
  unfolding char_eq_code [of _ "CHR 0x22"] py_lower_code by simp

lemma space_vs_p: "in_category Space x \<Longrightarrow> py_lower x \<noteq> py_lower (CHR ''p'')"
  unfolding char_eq_code [of "py_lower x"] py_lower_code
  by (simp add: py_isspace_def Let_def) arith

lemma space_vs_c: "in_category Space x \<Longrightarrow> py_lower x \<noteq> py_lower (CHR ''c'')"
  unfolding char_eq_code [of "py_lower x"] py_lower_code
  by (simp add: py_isspace_def Let_def) arith

lemma not_quote_vs_quote: "in_category Not_quote x \<Longrightarrow> py_lower x \<noteq> py_lower (CHR 0x22)"
  using py_lower_quote [of x] by (simp add: py_lower_def)


lemma first_some_None: "first_some rs = None \<longleftrightarrow> (\<forall>r \<in> set rs. r = None)"
  by (induction rs rule: first_some.induct) auto

lemma first_some_SomeD: "first_some rs = Some v \<Longrightarrow> Some v \<in> set rs"
  by (induction rs rule: first_some.induct) auto

lemma match_lits:
  "match_items (map Lit l @ r) s g = Some res \<longleftrightarrow>
     (\<exists>a t. s = a @ t \<and> ci_equal a l \<and> match_items r t g = Some res)"
proof (induction l arbitrary: s)
  case Nil
  then show ?case by (simp add: ci_equal_def)
next
  case (Cons c l)
  show ?case
  proof (cases s)
    case Nil
    then show ?thesis by (simp add: ci_equal_def)
  next
    case (Cons x xs)
    show ?thesis
    proof
      assume m: "match_items (map Lit (c # l) @ r) s g = Some res"
      with Cons have lo: "py_lower x = py_lower c"
        and rest: "match_items (map Lit l @ r) xs g = Some res"
        by (auto split: if_splits)
      from rest Cons.IH obtain a t where "xs = a @ t" "ci_equal a l" "match_items r t g = Some res"
        by blast
      with lo Cons have "s = (x # a) @ t \<and> ci_equal (x # a) (c # l) \<and> match_items r t g = Some res"
        by (simp add: ci_equal_def)
      then show "\<exists>a t. s = a @ t \<and> ci_equal a (c # l) \<and> match_items r t g = Some res"
        by blast
    next
      assume "\<exists>a t. s = a @ t \<and> ci_equal a (c # l) \<and> match_items r t g = Some res"
      then obtain a t where s: "s = a @ t" and ci: "ci_equal a (c # l)"
        and m: "match_items r t g = Some res" by blast
      from ci obtain y ys where a: "a = y # ys" and lo: "py_lower y = py_lower c"
        and ci': "ci_equal ys l"
        by (cases a) (auto simp: ci_equal_def)
      from s a Cons have "x = y" "xs = ys @ t" by simp_all
      with ci' m Cons.IH have "match_items (map Lit l @ r) xs g = Some res" by blast
      with lo \<open>x = y\<close> Cons show "match_items (map Lit (c # l) @ r) s g = Some res"
        by simp
    qed
  qed
qed


lemma take_within_takeWhile:
  "k \<le> length (takeWhile P s) \<Longrightarrow> list_all P (take k s)"
proof -
  assume k: "k \<le> length (takeWhile P s)"
  have "take k s = take k (takeWhile P s @ dropWhile P s)" by simp
  also have "\<dots> = take k (takeWhile P s)" using k by (simp del: takeWhile_dropWhile_id)
  finally have "set (take k s) \<subseteq> set (takeWhile P s)" by (simp add: set_take_subset)
  then show ?thesis by (auto simp: list_all_iff dest: set_takeWhileD)
qed

lemma greedy_many1:
  assumes sep: "\<And>x. in_category cat x \<Longrightarrow> py_lower x \<noteq> py_lower c"
  shows "first_some (map (\<lambda>k. match_items (Lit c # r) (drop k s) (G (take k s)))
             (rev [1 ..< Suc (length (takeWhile (in_category cat) s))])) = Some res
         \<longleftrightarrow> (\<exists>w t. s = w @ t \<and> w \<noteq> [] \<and> list_all (in_category cat) w
                 \<and> match_items (Lit c # r) t (G w) = Some res)"
    (is "?L = Some res \<longleftrightarrow> ?R")
proof
  assume "?L = Some res"
  then have "Some res \<in> set (map (\<lambda>k. match_items (Lit c # r) (drop k s) (G (take k s)))
             (rev [1 ..< Suc (length (takeWhile (in_category cat) s))]))"
    by (rule first_some_SomeD)
  then obtain k where k1: "1 \<le> k" and kn: "k \<le> length (takeWhile (in_category cat) s)"
    and m: "match_items (Lit c # r) (drop k s) (G (take k s)) = Some res"
    by auto
  have "length (takeWhile (in_category cat) s) \<le> length s" by (rule length_takeWhile_le)
  with k1 kn have "take k s \<noteq> []" by auto
  moreover have "list_all (in_category cat) (take k s)"
    using kn by (rule take_within_takeWhile)
  moreover have "s = take k s @ drop k s" by simp
  ultimately show ?R using m by blast
next
  assume ?R
  then obtain w t where s: "s = w @ t" and w: "w \<noteq> []"
    and all: "list_all (in_category cat) w"
    and m: "match_items (Lit c # r) t (G w) = Some res" by blast
  from m obtain x t' where t: "t = x # t'" and lo: "py_lower x = py_lower c"
    by (cases t) (auto split: if_splits)
  from lo sep have nx: "\<not> in_category cat x" by blast
  have tw: "takeWhile (in_category cat) s = w"
    using s t nx all by (simp add: list_all_iff takeWhile_append2)
  define n where "n = length w"
  from w have n: "n = Suc (n - 1)" by (simp add: n_def)
  have "rev [1 ..< Suc n] = n # rev [1 ..< n]"
    using n by (metis rev.simps(2) upt_Suc_append rev_append rev_singleton_conv append_Cons append_Nil le_add1 plus_1_eq_Suc)
  moreover have "match_items (Lit c # r) (drop n s) (G (take n s)) = Some res"
    using m s by (simp add: n_def)
  ultimately show "?L = Some res"
    unfolding tw n_def [symmetric] by simp
qed


lemma py_lower_quote_self: "py_lower (CHR 0x22) = CHR 0x22"
  by (simp add: py_lower_quote)

lemma match_quote:
  "match_items [Lit (CHR 0x22)] t g = Some res \<longleftrightarrow> (\<exists>rest. t = CHR 0x22 # rest \<and> res = g)"
  by (cases t) (auto simp: py_lower_quote_self py_lower_quote)

lemma all_not_quote: "list_all (in_category Not_quote) w \<longleftrightarrow> CHR 0x22 \<notin> set w"
  by (induction w) auto

lemma match_group_quote:
  "match_items (Group_many1 Not_quote # [Lit (CHR 0x22)]) s g = Some res \<longleftrightarrow>
     (\<exists>v rest. s = v @ CHR 0x22 # rest \<and> v \<noteq> [] \<and> CHR 0x22 \<notin> set v \<and> res = Some v)"
proof -
  have "match_items (Group_many1 Not_quote # [Lit (CHR 0x22)]) s g = Some res \<longleftrightarrow>
     (\<exists>w t. s = w @ t \<and> w \<noteq> [] \<and> list_all (in_category Not_quote) w
            \<and> match_items [Lit (CHR 0x22)] t (Some w) = Some res)"
    unfolding match_items.simps(4) by (rule greedy_many1) (erule not_quote_vs_quote)
  also have "\<dots> \<longleftrightarrow>
     (\<exists>v rest. s = v @ CHR 0x22 # rest \<and> v \<noteq> [] \<and> CHR 0x22 \<notin> set v \<and> res = Some v)"
    unfolding match_quote all_not_quote by blast
  finally show ?thesis .
qed

lemma match_many1_lits:
  assumes sep: "\<And>x. in_category cat x \<Longrightarrow> py_lower x \<noteq> py_lower c"
  shows "match_items (Many1 cat # map Lit (c # l) @ r) s g = Some res \<longleftrightarrow>
     (\<exists>w b t. s = w @ b @ t \<and> w \<noteq> [] \<and> list_all (in_category cat) w
              \<and> ci_equal b (c # l) \<and> match_items r t g = Some res)"
proof -
  have "match_items (Many1 cat # map Lit (c # l) @ r) s g =
      first_some (map (\<lambda>k. match_items (Lit c # (map Lit l @ r)) (drop k s) ((\<lambda>_. g) (take k s)))
             (rev [1 ..< Suc (length (takeWhile (in_category cat) s))]))"
    by simp
  also have "\<dots> = Some res \<longleftrightarrow>
     (\<exists>w t. s = w @ t \<and> w \<noteq> [] \<and> list_all (in_category cat) w
            \<and> match_items (Lit c # (map Lit l @ r)) t g = Some res)"
    by (rule greedy_many1 [OF sep])
  also have "\<dots> \<longleftrightarrow> (\<exists>w t. s = w @ t \<and> w \<noteq> [] \<and> list_all (in_category cat) w
            \<and> match_items (map Lit (c # l) @ r) t g = Some res)"
    by simp
  also have "\<dots> \<longleftrightarrow> (\<exists>w b t. s = w @ b @ t \<and> w \<noteq> [] \<and> list_all (in_category cat) w
              \<and> ci_equal b (c # l) \<and> match_items r t g = Some res)"
    unfolding match_lits by blast
  finally show ?thesis .
qed

lemma in_category_Space: "in_category Space = py_isspace"
  by (rule ext) simp

lemma og_video_pattern_nested:
  \<open>og_video_pattern =
     map Lit ''<meta'' @ (Many1 Space # map Lit ''property="og:video"'' @
       (Many1 Space # map Lit ''content="'' @ (Group_many1 Not_quote # [Lit (CHR 0x22)])))\<close>
  by (simp add: og_video_pattern_def)

lemma match_space_p:
  "match_items (Many1 Space # map Lit (CHR ''p'' # l) @ r) s g = Some res \<longleftrightarrow>
     (\<exists>w b t. s = w @ b @ t \<and> w \<noteq> [] \<and> list_all py_isspace w
              \<and> ci_equal b (CHR ''p'' # l) \<and> match_items r t g = Some res)"
  unfolding in_category_Space [symmetric]
  by (rule match_many1_lits) (erule space_vs_p)

lemma match_space_c:
  "match_items (Many1 Space # map Lit (CHR ''c'' # l) @ r) s g = Some res \<longleftrightarrow>
     (\<exists>w b t. s = w @ b @ t \<and> w \<noteq> [] \<and> list_all py_isspace w
              \<and> ci_equal b (CHR ''c'' # l) \<and> match_items r t g = Some res)"
  unfolding in_category_Space [symmetric]
  by (rule match_many1_lits) (erule space_vs_c)


lemma match_og_video_pattern_nested:
  \<open>match_items og_video_pattern s None = Some res \<longleftrightarrow>
    (\<exists>a t. s = a @ t \<and> ci_equal a ''<meta'' \<and>
      (\<exists>w1 b t1. t = w1 @ b @ t1 \<and> w1 \<noteq> [] \<and> list_all py_isspace w1 \<and>
         ci_equal b ''property="og:video"'' \<and>
         (\<exists>w2 c t2. t1 = w2 @ c @ t2 \<and> w2 \<noteq> [] \<and> list_all py_isspace w2 \<and>
            ci_equal c ''content="'' \<and>
            (\<exists>v rest. t2 = v @ CHR 0x22 # rest \<and> v \<noteq> [] \<and> CHR 0x22 \<notin> set v
                \<and> res = Some v))))\<close>
  unfolding og_video_pattern_nested match_lits match_space_p match_space_c match_group_quote
  by (rule refl)

lemma match_og_video_pattern:
  "match_items og_video_pattern s None = Some res \<longleftrightarrow> (\<exists>v. res = Some v \<and> spec_marker_here s v)"
proof
  assume "match_items og_video_pattern s None = Some res"
  then obtain a t w1 b t1 w2 c t2 v rest where
    \<open>s = a @ t\<close> \<open>ci_equal a ''<meta''\<close>
    \<open>t = w1 @ b @ t1\<close> \<open>w1 \<noteq> []\<close> \<open>list_all py_isspace w1\<close>
    \<open>ci_equal b ''property="og:video"''\<close>
    \<open>t1 = w2 @ c @ t2\<close> \<open>w2 \<noteq> []\<close> \<open>list_all py_isspace w2\<close>
    \<open>ci_equal c ''content="''\<close>
    \<open>t2 = v @ CHR 0x22 # rest\<close> \<open>v \<noteq> []\<close> \<open>CHR 0x22 \<notin> set v\<close> \<open>res = Some v\<close>
    unfolding match_og_video_pattern_nested by (elim exE conjE) (rule that)
  then have "spec_marker_here s v"
    unfolding spec_marker_here_def
    by (rule_tac x = a in exI, rule_tac x = w1 in exI, rule_tac x = b in exI,
        rule_tac x = w2 in exI, rule_tac x = c in exI, rule_tac x = rest in exI) simp
  with \<open>res = Some v\<close> show "\<exists>v. res = Some v \<and> spec_marker_here s v" by blast
next
  assume "\<exists>v. res = Some v \<and> spec_marker_here s v"
  then obtain v a w1 b w2 c rest where
    \<open>res = Some v\<close> \<open>s = a @ w1 @ b @ w2 @ c @ v @ [CHR 0x22] @ rest\<close>
    \<open>ci_equal a ''<meta''\<close> \<open>w1 \<noteq> []\<close> \<open>list_all py_isspace w1\<close>
    \<open>ci_equal b ''property="og:video"''\<close> \<open>w2 \<noteq> []\<close> \<open>list_all py_isspace w2\<close>
    \<open>ci_equal c ''content="''\<close> \<open>v \<noteq> []\<close> \<open>CHR 0x22 \<notin> set v\<close>
    unfolding spec_marker_here_def by (elim exE conjE) (rule that)
  then show "match_items og_video_pattern s None = Some res"
    unfolding match_og_video_pattern_nested
    by (rule_tac x = a in exI, rule_tac x = "w1 @ b @ w2 @ c @ v @ CHR 0x22 # rest" in exI,
        simp, rule_tac x = w1 in exI, rule_tac x = b in exI, simp,
        rule_tac x = w2 in exI, rule_tac x = c in exI, simp)
qed

lemma match_og_video_None:
  "match_items og_video_pattern s None = None \<longleftrightarrow> (\<forall>v. \<not> spec_marker_here s v)"
proof -
  have "match_items og_video_pattern s None = None \<longleftrightarrow>
        (\<forall>res. match_items og_video_pattern s None \<noteq> Some res)"
    by (cases "match_items og_video_pattern s None") simp_all
  then show ?thesis unfolding match_og_video_pattern by blast
qed

lemma re_search_None:
  "re_search p s = None \<longleftrightarrow> (\<forall>i \<le> length s. match_items p (drop i s) None = None)"
proof (induction s)
  case Nil
  then show ?case by simp
next
  case (Cons c cs)
  have "(\<forall>i \<le> length (c # cs). match_items p (drop i (c # cs)) None = None) \<longleftrightarrow>
        match_items p (c # cs) None = None \<and>
        (\<forall>i \<le> length cs. match_items p (drop i cs) None = None)"
    (is "?A \<longleftrightarrow> ?B \<and> ?C")
  proof
    assume a: ?A
    have ?B using a [rule_format, of 0] by simp
    moreover have ?C
    proof (intro allI impI)
      fix i assume "i \<le> length cs"
      then show "match_items p (drop i cs) None = None"
        using a [rule_format, of "Suc i"] by simp
    qed
    ultimately show "?B \<and> ?C" by blast
  next
    assume bc: "?B \<and> ?C"
    show ?A
    proof (intro allI impI)
      fix i assume "i \<le> length (c # cs)"
      then show "match_items p (drop i (c # cs)) None = None"
        using bc by (cases i) simp_all
    qed
  qed
  then show ?case using Cons by (simp split: option.splits)
qed

lemma re_search_Some:
  "re_search p s = Some g \<longleftrightarrow>
     (\<exists>i \<le> length s. match_items p (drop i s) None = Some g
        \<and> (\<forall>j < i. match_items p (drop j s) None = None))"
proof (induction s)
  case Nil
  then show ?case by simp
next
  case (Cons c cs)
  show ?case
  proof (cases "match_items p (c # cs) None")
    case (Some g')
    show ?thesis
    proof
      assume "re_search p (c # cs) = Some g"
      with Some have "match_items p (drop 0 (c # cs)) None = Some g" by simp
      then show "\<exists>i \<le> length (c # cs). match_items p (drop i (c # cs)) None = Some g
        \<and> (\<forall>j < i. match_items p (drop j (c # cs)) None = None)"
        by (rule_tac x = 0 in exI) simp
    next
      assume "\<exists>i \<le> length (c # cs). match_items p (drop i (c # cs)) None = Some g
        \<and> (\<forall>j < i. match_items p (drop j (c # cs)) None = None)"
      then obtain i where i: "match_items p (drop i (c # cs)) None = Some g"
        and before: "\<forall>j < i. match_items p (drop j (c # cs)) None = None" by blast
      have "i = 0"
      proof (rule ccontr)
        assume "i \<noteq> 0"
        then have "match_items p (drop 0 (c # cs)) None = None" using before by blast
        with Some show False by simp
      qed
      with i Some show "re_search p (c # cs) = Some g" by simp
    qed
  next
    case None
    then have r: "re_search p (c # cs) = re_search p cs" by simp
    show ?thesis
    proof
      assume "re_search p (c # cs) = Some g"
      with r Cons.IH obtain i where il: "i \<le> length cs"
        and i: "match_items p (drop i cs) None = Some g"
        and before: "\<forall>j < i. match_items p (drop j cs) None = None" by auto
      have "\<forall>j < Suc i. match_items p (drop j (c # cs)) None = None"
      proof (intro allI impI)
        fix j assume "j < Suc i"
        then show "match_items p (drop j (c # cs)) None = None"
          using None before by (cases j) simp_all
      qed
      with il i show "\<exists>i \<le> length (c # cs). match_items p (drop i (c # cs)) None = Some g
        \<and> (\<forall>j < i. match_items p (drop j (c # cs)) None = None)"
        by (rule_tac x = "Suc i" in exI) simp
    next
      assume "\<exists>i \<le> length (c # cs). match_items p (drop i (c # cs)) None = Some g
        \<and> (\<forall>j < i. match_items p (drop j (c # cs)) None = None)"
      then obtain i where il: "i \<le> length (c # cs)"
        and i: "match_items p (drop i (c # cs)) None = Some g"
        and before: "\<forall>j < i. match_items p (drop j (c # cs)) None = None" by blast
      from i None obtain k where k: "i = Suc k" by (cases i) simp_all
      have "\<forall>j < k. match_items p (drop j cs) None = None"
      proof (intro allI impI)
        fix j assume "j < k"
        then have "match_items p (drop (Suc j) (c # cs)) None = None"
          using before k by blast
        then show "match_items p (drop j cs) None = None" by simp
      qed
      moreover have "k \<le> length cs" "match_items p (drop k cs) None = Some g"
        using il i k by simp_all
      ultimately have "re_search p cs = Some g" using Cons.IH by blast
      with r show "re_search p (c # cs) = Some g" by simp
    qed
  qed
qed

lemma match_og_video_Some:
  "match_items og_video_pattern s None = Some (Some v) \<longleftrightarrow> spec_marker_here s v"
  unfolding match_og_video_pattern by simp

lemma match_og_video_no_empty_group: "match_items og_video_pattern s None \<noteq> Some None"
  unfolding match_og_video_pattern by simp

lemma re_search_og_no_empty_group: "re_search og_video_pattern s \<noteq> Some None"
  unfolding re_search_Some by (simp add: match_og_video_no_empty_group)

lemma extract_og_video_Some:
  "extract_og_video html = Some v \<longleftrightarrow>
     (\<exists>i \<le> length html. spec_marker_here (drop i html) v
        \<and> (\<forall>j < i. \<forall>w. \<not> spec_marker_here (drop j html) w))"
proof -
  have "extract_og_video html = Some v \<longleftrightarrow> re_search og_video_pattern html = Some (Some v)"
    by (simp add: extract_og_video_def split: option.splits)
  then show ?thesis
    unfolding re_search_Some match_og_video_Some match_og_video_None by simp
qed

lemma extract_og_video_None:
  "extract_og_video html = None \<longleftrightarrow>
     (\<forall>i \<le> length html. \<forall>w. \<not> spec_marker_here (drop i html) w)"
proof -
  have "extract_og_video html = None \<longleftrightarrow> re_search og_video_pattern html = None"
    using re_search_og_no_empty_group [of html]
    by (auto simp: extract_og_video_def split: option.splits)
  then show ?thesis
    unfolding re_search_None match_og_video_None by simp
qed

lemma extract_og_video_example:
  \<open>extract_og_video ''<meta property="og:video" content="https://x/y.mp4">''
     = Some ''https://x/y.mp4''\<close>
  by (simp add: extract_og_video_def og_video_pattern_def py_lower_def py_isspace_def)

lemma py_lower_eq: "(py_lower x = py_lower c) = ((of_char (py_lower x) :: nat) = of_char (py_lower c))"
  by simp

text \<open>
  C7. For every document, the Metadata Extractor returns \<open>v\<close> exactly when some position of
  the document carries an og:video meta marker with content \<open>v\<close> and no earlier position
  carries any such marker (first occurrence, letters compared up to case); it returns
  absence exactly when no position carries a marker, and being a total function it never
  fails. On \<open><meta property="og:video" content="https://x/y.mp4">\<close> it returns
  \<open>https://x/y.mp4\<close>.
\<close>

theorem extract_og_video_first_marker:
  \<open>(extract_og_video html = Some v \<longleftrightarrow>
      (\<exists>i \<le> length html. spec_marker_here (drop i html) v
         \<and> (\<forall>j < i. \<forall>w. \<not> spec_marker_here (drop j html) w)))
   \<and> (extract_og_video html = None \<longleftrightarrow>
      (\<forall>i \<le> length html. \<forall>w. \<not> spec_marker_here (drop i html) w))
   \<and> extract_og_video ''<meta property="og:video" content="https://x/y.mp4">''
       = Some ''https://x/y.mp4''\<close>
  using extract_og_video_Some extract_og_video_None extract_og_video_example by blast

theorem extract_og_video_first_marker_witness:
  \<open>extract_og_video ''<p><META  Property="OG:Video" content="//x/y.mp4">'' = Some ''//x/y.mp4''
   \<and> (\<exists>i \<le> length ''<p><META  Property="OG:Video" content="//x/y.mp4">''. spec_marker_here (drop i ''<p><META  Property="OG:Video" content="//x/y.mp4">'') ''//x/y.mp4'')\<close>
proof -
  have e: \<open>extract_og_video ''<p><META  Property="OG:Video" content="//x/y.mp4">'' = Some ''//x/y.mp4''\<close>
    by (simp add: extract_og_video_def og_video_pattern_def py_lower_eq py_lower_code
        py_isspace_def)
  have \<open>extract_og_video ''<p><META  Property="OG:Video" content="//x/y.mp4">'' = Some ''//x/y.mp4'' \<longleftrightarrow>
    (\<exists>i \<le> length ''<p><META  Property="OG:Video" content="//x/y.mp4">''. spec_marker_here (drop i ''<p><META  Property="OG:Video" content="//x/y.mp4">'') ''//x/y.mp4''
        \<and> (\<forall>j < i. \<forall>w. \<not> spec_marker_here (drop j ''<p><META  Property="OG:Video" content="//x/y.mp4">'') w))\<close>
    using extract_og_video_first_marker [of \<open>''<p><META  Property="OG:Video" content="//x/y.mp4">''\<close> \<open>''//x/y.mp4''\<close>]
    by (rule conjunct1)
  from this e have \<open>\<exists>i \<le> length ''<p><META  Property="OG:Video" content="//x/y.mp4">''. spec_marker_here (drop i ''<p><META  Property="OG:Video" content="//x/y.mp4">'') ''//x/y.mp4''
        \<and> (\<forall>j < i. \<forall>w. \<not> spec_marker_here (drop j ''<p><META  Property="OG:Video" content="//x/y.mp4">'') w)\<close>
    by (rule iffD1)
  then obtain i where \<open>i \<le> length ''<p><META  Property="OG:Video" content="//x/y.mp4">''\<close>
    and \<open>spec_marker_here (drop i ''<p><META  Property="OG:Video" content="//x/y.mp4">'') ''//x/y.mp4''\<close>
    by (elim exE conjE) (rule that)
  then have \<open>\<exists>i \<le> length ''<p><META  Property="OG:Video" content="//x/y.mp4">''. spec_marker_here (drop i ''<p><META  Property="OG:Video" content="//x/y.mp4">'') ''//x/y.mp4''\<close>
    by (intro exI conjI)
  with e show ?thesis by (rule conjI)
qed

section \<open>Resolution Orchestrator: fallback policy and results\<close>


lemma parse_cookies_returns: "\<exists>cookies. parse_cookies cookie_header = Inr cookies"
  by (simp add: parse_cookies_def cookie_loop_spec split: option.splits)



















lemmas run_defs =
  playwright_fetch_html_def with_playwright_def fetch_body_def open_page_def
  install_cookies_def close_session_def Let_def



text \<open>
  C8 does not hold of the code. When the browser starts and the navigation of
  \<open>_playwright_fetch_html\<close> raises (a timeout, say), the error leaves the function with
  \<open>context.close()\<close> and \<open>browser.close()\<close> never called: lines 76 and 77 are plain statements
  after the navigation, not a \<open>finally\<close>. Only the \<open>with sync_playwright()\<close> block is left.
\<close>

theorem session_left_open_when_navigation_fails:
  "snd (playwright_fetch_html
          (eng\<lparr>launch := None, new_context := None, add_cookies := (\<lambda>cookies. None),
                new_page := None, goto := (\<lambda>url. Some Timeout_error)\<rparr>) url ch w)
     = Inl Timeout_error
   \<and> context_closes (fst (playwright_fetch_html
          (eng\<lparr>launch := None, new_context := None, add_cookies := (\<lambda>cookies. None),
                new_page := None, goto := (\<lambda>url. Some Timeout_error)\<rparr>) url ch w))
     = context_closes w
   \<and> browser_closes (fst (playwright_fetch_html
          (eng\<lparr>launch := None, new_context := None, add_cookies := (\<lambda>cookies. None),
                new_page := None, goto := (\<lambda>url. Some Timeout_error)\<rparr>) url ch w))
     = browser_closes w
   \<and> engine_stops (fst (playwright_fetch_html
          (eng\<lparr>launch := None, new_context := None, add_cookies := (\<lambda>cookies. None),
                new_page := None, goto := (\<lambda>url. Some Timeout_error)\<rparr>) url ch w))
     = engine_stops w + 1"
proof -
  obtain cookies where "parse_cookies ch = Inr cookies"
    using parse_cookies_returns by blast
  then show ?thesis by (simp add: run_defs)
qed

section \<open>Reel Collector: the scroll-and-harvest loop\<close>

lemma collect_loop_stop:
  "eval_links eng n = Inr hs \<Longrightarrow>
   cap_reached mc (fst (harvest mc hs seen 0))
     \<or> idle_limit \<le> next_idle (snd (harvest mc hs seen 0)) idle \<Longrightarrow>
   collect_loop eng mc seen idle n = Some (n, Inr (fst (harvest mc hs seen 0)))"
  by (subst collect_loop.simps) (auto split: prod.splits)

lemma collect_loop_continue:
  "eval_links eng n = Inr hs \<Longrightarrow>
   \<not> cap_reached mc (fst (harvest mc hs seen 0)) \<Longrightarrow>
   \<not> idle_limit \<le> next_idle (snd (harvest mc hs seen 0)) idle \<Longrightarrow>
   scroll_by eng n = None \<Longrightarrow>
   collect_loop eng mc seen idle n
     = collect_loop eng mc (fst (harvest mc hs seen 0))
         (next_idle (snd (harvest mc hs seen 0)) idle) (n + 1)"
  by (subst collect_loop.simps) (auto split: prod.splits)

lemma collect_loop_induct [consumes 1, case_names stop continue]:
  assumes run: "collect_loop eng mc seen idle n = Some (k, Inr S)"
    and stop: "\<And>seen idle n hs.
      eval_links eng n = Inr hs \<Longrightarrow>
      cap_reached mc (fst (harvest mc hs seen 0))
        \<or> idle_limit \<le> next_idle (snd (harvest mc hs seen 0)) idle \<Longrightarrow>
      P seen idle n n (fst (harvest mc hs seen 0))"
    and continue: "\<And>seen idle n hs k S.
      eval_links eng n = Inr hs \<Longrightarrow>
      \<not> cap_reached mc (fst (harvest mc hs seen 0)) \<Longrightarrow>
      \<not> idle_limit \<le> next_idle (snd (harvest mc hs seen 0)) idle \<Longrightarrow>
      scroll_by eng n = None \<Longrightarrow>
      P (fst (harvest mc hs seen 0)) (next_idle (snd (harvest mc hs seen 0)) idle) (n + 1) k S \<Longrightarrow>
      P seen idle n k S"
  shows "P seen idle n k S"
proof -
  have "e0 = eng \<and> m0 = mc \<longrightarrow> (\<forall>k S. y0 = (k, Inr S) \<longrightarrow> P s0 i0 n0 k S)"
    if r: "collect_loop e0 m0 s0 i0 n0 = Some y0" for e0 m0 s0 i0 n0 y0
  proof (rule collect_loop.raw_induct
      [where P = "\<lambda>e m s i n y. e = eng \<and> m = mc \<longrightarrow> (\<forall>k S. y = (k, Inr S) \<longrightarrow> P s i n k S)",
        OF _ r])
    fix f eng' mc' seen idle n y
    assume IH: "\<And>a b c d e y. f a b c d e = Some y \<Longrightarrow>
        a = eng \<and> b = mc \<longrightarrow> (\<forall>k S. y = (k, Inr S) \<longrightarrow> P c d e k S)"
      and body0: "(case eval_links eng' n of
          Inl e \<Rightarrow> Some (n, Inl e)
        | Inr hrefs \<Rightarrow>
            (case harvest mc' hrefs seen 0 of
               (seen1, new) \<Rightarrow>
                 if cap_reached mc' seen1 then Some (n, Inr seen1)
                 else if idle_limit \<le> next_idle new idle then Some (n, Inr seen1)
                 else (case scroll_by eng' n of
                         Some e \<Rightarrow> Some (n, Inl e)
                       | None \<Rightarrow> f eng' mc' seen1 (next_idle new idle) (n + 1)))) = Some y"
    show "eng' = eng \<and> mc' = mc \<longrightarrow> (\<forall>k S. y = (k, Inr S) \<longrightarrow> P seen idle n k S)"
    proof (intro impI allI)
      fix k S
      assume eq: "eng' = eng \<and> mc' = mc" and y: "y = (k, Inr S)"
      note body = body0 [unfolded y]
      show "P seen idle n k S"
      proof (cases "eval_links eng n")
        case (Inl e)
        with body eq show ?thesis by simp
      next
        case (Inr hs)
        obtain s1 new where h: "harvest mc hs seen 0 = (s1, new)"
          by (cases "harvest mc hs seen 0")
        show ?thesis
        proof (cases "cap_reached mc s1 \<or> idle_limit \<le> next_idle new idle")
          case True
          with body eq Inr h have "k = n" and "S = s1"
            by (auto split: if_splits)
          with stop [OF Inr, of seen idle] True h show ?thesis by simp
        next
          case False
          show ?thesis
          proof (cases "scroll_by eng n")
            case None
            with body eq Inr h False
            have "f eng mc s1 (next_idle new idle) (n + 1) = Some (k, Inr S)"
              by simp
            from IH [OF this] eq
            have "P s1 (next_idle new idle) (n + 1) k S" by simp
            with continue [OF Inr, of seen idle k S] False h None show ?thesis by simp
          next
            case (Some e)
            with body eq Inr h False show ?thesis by simp
          qed
        qed
      qed
    qed
  qed
  with run show ?thesis by blast
qed

lemma reel_links_Nil: "reel_links [] = {}"
  by (simp add: reel_links_def)

lemma reel_links_Cons:
  "reel_links (h # hs)
     = (if py_in ''/reel/'' h then insert (canonical h) (reel_links hs) else reel_links hs)"
  by (auto simp: reel_links_def)

lemma finite_reel_links: "finite (reel_links hs)"
  by (simp add: reel_links_def)

lemma harvest_skip:
  "\<not> (py_in ''/reel/'' h \<and> canonical h \<notin> seen) \<Longrightarrow>
   harvest mc (h # hs) seen new = harvest mc hs seen new"
  by auto

lemma links_skip:
  "\<not> (py_in ''/reel/'' h \<and> canonical h \<notin> seen) \<Longrightarrow>
   seen \<union> reel_links (h # hs) = seen \<union> reel_links hs"
  by (auto simp: reel_links_Cons)

lemma harvest_add:
  "py_in ''/reel/'' h \<and> canonical h \<notin> seen \<Longrightarrow>
   harvest mc (h # hs) seen new
     = (if cap_reached mc (insert (canonical h) seen) then (insert (canonical h) seen, new + 1)
        else harvest mc hs (insert (canonical h) seen) (new + 1))"
  by simp

lemma links_add:
  "py_in ''/reel/'' h \<and> canonical h \<notin> seen \<Longrightarrow>
   seen \<union> reel_links (h # hs) = insert (canonical h) seen \<union> reel_links hs"
  by (auto simp: reel_links_Cons)

lemma harvest_bounds:
  "seen \<subseteq> fst (harvest mc hs seen new) \<and> fst (harvest mc hs seen new) \<subseteq> seen \<union> reel_links hs"
proof (induction hs arbitrary: seen new)
  case Nil
  show ?case by simp
next
  case (Cons h hs)
  show ?case
  proof (cases "py_in ''/reel/'' h \<and> canonical h \<notin> seen")
    case True
    from Cons [where seen = "insert (canonical h) seen" and new = "new + 1"]
    show ?thesis
      unfolding harvest_add [OF True] links_add [OF True] by auto
  next
    case False
    from Cons [where seen = seen and new = new]
    show ?thesis
      unfolding harvest_skip [OF False] links_skip [OF False] .
  qed
qed

lemma harvest_finite: "finite seen \<Longrightarrow> finite (fst (harvest mc hs seen new))"
  using harvest_bounds [of seen mc hs new] finite_reel_links [of hs]
  by (meson finite_UnI finite_subset)

lemma harvest_all:
  "\<not> cap_reached mc (fst (harvest mc hs seen new)) \<Longrightarrow>
   fst (harvest mc hs seen new) = seen \<union> reel_links hs"
proof (induction hs arbitrary: seen new)
  case Nil
  show ?case by (simp add: reel_links_Nil)
next
  case (Cons h hs)
  show ?case
  proof (cases "py_in ''/reel/'' h \<and> canonical h \<notin> seen")
    case True
    show ?thesis
    proof (cases "cap_reached mc (insert (canonical h) seen)")
      case yes: True
      with Cons.prems show ?thesis unfolding harvest_add [OF True] by simp
    next
      case no: False
      with Cons.prems have "\<not> cap_reached mc
          (fst (harvest mc hs (insert (canonical h) seen) (new + 1)))"
        unfolding harvest_add [OF True] by simp
      from Cons.IH [OF this] no show ?thesis
        unfolding harvest_add [OF True] links_add [OF True] by simp
    qed
  next
    case False
    from Cons.prems have "\<not> cap_reached mc (fst (harvest mc hs seen new))"
      unfolding harvest_skip [OF False] .
    from Cons.IH [OF this] show ?thesis
      unfolding harvest_skip [OF False] links_skip [OF False] .
  qed
qed

lemma harvest_nothing_new: "reel_links hs \<subseteq> seen \<Longrightarrow> harvest mc hs seen new = (seen, new)"
proof (induction hs arbitrary: seen new)
  case Nil
  show ?case by simp
next
  case (Cons h hs)
  from Cons.prems have n: "\<not> (py_in ''/reel/'' h \<and> canonical h \<notin> seen)"
    and "reel_links hs \<subseteq> seen"
    by (auto simp: reel_links_Cons split: if_splits)
  from Cons.IH [OF this(2)] show ?case unfolding harvest_skip [OF n] .
qed

lemma harvest_count_mono: "new \<le> snd (harvest mc hs seen new)"
proof (induction hs arbitrary: seen new)
  case Nil
  show ?case by simp
next
  case (Cons h hs)
  show ?case
  proof (cases "py_in ''/reel/'' h \<and> canonical h \<notin> seen")
    case True
    from Cons [where seen = "insert (canonical h) seen" and new = "new + 1"]
    show ?thesis unfolding harvest_add [OF True] by simp
  next
    case False
    from Cons [where seen = seen and new = new]
    show ?thesis unfolding harvest_skip [OF False] .
  qed
qed

lemma harvest_something_new:
  "\<not> reel_links hs \<subseteq> seen \<Longrightarrow> new < snd (harvest mc hs seen new)"
proof (induction hs arbitrary: seen new)
  case Nil
  then show ?case by (simp add: reel_links_Nil)
next
  case (Cons h hs)
  show ?case
  proof (cases "py_in ''/reel/'' h \<and> canonical h \<notin> seen")
    case True
    with harvest_count_mono [of "new + 1" mc hs "insert (canonical h) seen"]
    show ?thesis unfolding harvest_add [OF True] by simp
  next
    case False
    with Cons.prems have "\<not> reel_links hs \<subseteq> seen"
      by (auto simp: reel_links_Cons split: if_splits)
    from Cons.IH [OF this] show ?thesis unfolding harvest_skip [OF False] .
  qed
qed

lemma cap_reached_mono:
  "finite B \<Longrightarrow> A \<subseteq> B \<Longrightarrow> cap_reached mc A \<Longrightarrow> cap_reached mc B"
  using card_mono [of B A] by (auto simp: cap_reached_def split: option.splits)

lemma harvest_cap_irrelevant:
  "(\<And>s. cap_reached mc s = cap_reached mc' s) \<Longrightarrow>
   harvest mc hs seen new = harvest mc' hs seen new"
  by (induction hs arbitrary: seen new) simp_all

lemma harvest_below_cap:
  assumes "finite seen" and "\<not> cap_reached mc (seen \<union> reel_links hs)"
  shows "harvest mc hs seen new = harvest None hs seen new"
  using assms
proof (induction hs arbitrary: seen new)
  case Nil
  show ?case by simp
next
  case (Cons h hs)
  show ?case
  proof (cases "py_in ''/reel/'' h \<and> canonical h \<notin> seen")
    case True
    let ?s = "insert (canonical h) seen"
    from Cons.prems(1) have f: "finite (?s \<union> reel_links hs)"
      by (simp add: finite_reel_links)
    from Cons.prems(2) have n: "\<not> cap_reached mc (?s \<union> reel_links hs)"
      unfolding links_add [OF True] .
    have "\<not> cap_reached mc ?s"
      using cap_reached_mono [OF f, of ?s mc] n by blast
    moreover have "harvest mc hs ?s (new + 1) = harvest None hs ?s (new + 1)"
      using Cons.IH [of ?s "new + 1"] Cons.prems(1) n by simp
    moreover have "\<not> cap_reached None ?s" by (simp add: cap_reached_def)
    ultimately show ?thesis unfolding harvest_add [OF True] by simp
  next
    case False
    from Cons.prems(2) have "\<not> cap_reached mc (seen \<union> reel_links hs)"
      unfolding links_skip [OF False] .
    from Cons.IH [OF Cons.prems(1) this] show ?thesis unfolding harvest_skip [OF False] .
  qed
qed

lemma harvest_card_cap:
  assumes "finite seen" and "0 < m" and "\<not> cap_reached (Some m) seen"
  shows "int (card (fst (harvest (Some m) hs seen new))) \<le> m"
  using assms
proof (induction hs arbitrary: seen new)
  case Nil
  then show ?case by (simp add: cap_reached_def)
next
  case (Cons h hs)
  show ?case
  proof (cases "py_in ''/reel/'' h \<and> canonical h \<notin> seen")
    case True
    let ?s = "insert (canonical h) seen"
    from True Cons.prems have c: "int (card ?s) \<le> m"
      by (simp add: cap_reached_def)
    show ?thesis
    proof (cases "cap_reached (Some m) ?s")
      case yes: True
      with c show ?thesis unfolding harvest_add [OF True] by simp
    next
      case no: False
      from Cons.IH [of ?s "new + 1"] Cons.prems no show ?thesis
        unfolding harvest_add [OF True] by simp
    qed
  next
    case False
    from Cons.IH [OF Cons.prems] show ?thesis unfolding harvest_skip [OF False] .
  qed
qed

lemma batch_eval: "eval_links eng n = Inr hs \<Longrightarrow> batch eng n = reel_links hs"
  by (simp add: batch_def)

lemma discovered_single: "discovered eng n n = batch eng n"
  by (simp add: discovered_def)

lemma discovered_first: "n \<le> k \<Longrightarrow> discovered eng n k = batch eng n \<union> discovered eng (n + 1) k"
proof -
  assume "n \<le> k"
  then have "{n..k} = insert n {n + 1..k}" by auto
  then show ?thesis by (simp add: discovered_def)
qed

lemma finite_discovered: "finite (discovered eng n k)"
  by (auto simp: discovered_def batch_def finite_reel_links split: sum.splits)

lemma next_idle_le: "next_idle new idle \<le> idle + 1"
  by (simp add: next_idle_def)

lemma run_bounds:
  assumes "collect_loop eng mc seen idle n = Some (k, Inr S)"
  shows "finite seen \<longrightarrow> n \<le> k \<and> finite S \<and> seen \<subseteq> S \<and> S \<subseteq> seen \<union> discovered eng n k"
  using assms
proof (induct rule: collect_loop_induct)
  case (stop seen idle n hs)
  show ?case
    using harvest_bounds [of seen mc hs 0] harvest_finite [of seen mc hs 0]
    by (simp add: discovered_single batch_eval [OF stop(1)])
next
  case (continue seen idle n hs k S)
  show ?case
  proof
    assume f: "finite seen"
    then have "finite (fst (harvest mc hs seen 0))" by (rule harvest_finite)
    with continue(5) have ih: "n + 1 \<le> k" "finite S" "fst (harvest mc hs seen 0) \<subseteq> S"
      "S \<subseteq> fst (harvest mc hs seen 0) \<union> discovered eng (n + 1) k"
      by simp_all
    from ih(1) have d: "discovered eng n k = reel_links hs \<union> discovered eng (n + 1) k"
      using discovered_first [of n k eng] by (simp add: batch_eval [OF continue(1)])
    from ih harvest_bounds [of seen mc hs 0]
    show "n \<le> k \<and> finite S \<and> seen \<subseteq> S \<and> S \<subseteq> seen \<union> discovered eng n k"
      unfolding d by auto
  qed
qed

lemma run_uncapped:
  assumes "collect_loop eng mc seen idle n = Some (k, Inr S)"
  shows "\<not> cap_reached mc S \<longrightarrow> n \<le> k \<and> S = seen \<union> discovered eng n k \<and> n + 14 \<le> k + idle"
  using assms
proof (induct rule: collect_loop_induct)
  case (stop seen idle n hs)
  show ?case
  proof
    assume c: "\<not> cap_reached mc (fst (harvest mc hs seen 0))"
    with stop(2) have "idle_limit \<le> next_idle (snd (harvest mc hs seen 0)) idle" by simp
    with next_idle_le [of "snd (harvest mc hs seen 0)" idle] have "14 \<le> idle"
      by (simp add: idle_limit_def)
    with harvest_all [OF c]
    show "n \<le> n \<and> fst (harvest mc hs seen 0) = seen \<union> discovered eng n n \<and> n + 14 \<le> n + idle"
      by (simp add: discovered_single batch_eval [OF stop(1)])
  qed
next
  case (continue seen idle n hs k S)
  show ?case
  proof
    assume "\<not> cap_reached mc S"
    with continue(5) have ih: "n + 1 \<le> k" "S = fst (harvest mc hs seen 0) \<union> discovered eng (n + 1) k"
      "n + 1 + 14 \<le> k + next_idle (snd (harvest mc hs seen 0)) idle"
      by simp_all
    from ih(1) have d: "discovered eng n k = reel_links hs \<union> discovered eng (n + 1) k"
      using discovered_first [of n k eng] by (simp add: batch_eval [OF continue(1)])
    from ih next_idle_le [of "snd (harvest mc hs seen 0)" idle] harvest_all [OF continue(2)]
    show "n \<le> k \<and> S = seen \<union> discovered eng n k \<and> n + 14 \<le> k + idle"
      unfolding d by auto
  qed
qed

lemma run_card_cap:
  assumes "collect_loop eng (Some m) seen idle n = Some (k, Inr S)" and "0 < m"
  shows "finite seen \<and> \<not> cap_reached (Some m) seen \<longrightarrow> int (card S) \<le> m"
  using assms(1)
proof (induct rule: collect_loop_induct)
  case (stop seen idle n hs)
  show ?case using harvest_card_cap [of seen m hs 0] assms(2) by simp
next
  case (continue seen idle n hs k S)
  show ?case using continue(2,5) harvest_finite [of seen "Some m" hs 0] by simp
qed


lemma idle_run:
  "idle + j = 14 \<Longrightarrow> \<not> cap_reached mc seen \<Longrightarrow>
   (\<forall>i \<le> j. \<exists>hs. eval_links eng (n + i) = Inr hs \<and> reel_links hs \<subseteq> seen) \<Longrightarrow>
   (\<forall>i < j. scroll_by eng (n + i) = None) \<Longrightarrow>
   collect_loop eng mc seen idle n = Some (n + j, Inr seen)"
proof (induction j arbitrary: idle n)
  case 0
  from 0(3) obtain hs where hs: "eval_links eng n = Inr hs" "reel_links hs \<subseteq> seen"
    by auto
  have h: "harvest mc hs seen 0 = (seen, 0)" using hs(2) by (rule harvest_nothing_new)
  from 0(1) have "idle_limit \<le> next_idle (snd (harvest mc hs seen 0)) idle"
    by (simp add: h idle_limit_def next_idle_def)
  from collect_loop_stop [OF hs(1) disjI2, OF this] show ?case by (simp add: h)
next
  case (Suc j)
  from Suc.prems(3) obtain hs where hs: "eval_links eng n = Inr hs" "reel_links hs \<subseteq> seen"
    by force
  have h: "harvest mc hs seen 0 = (seen, 0)" using hs(2) by (rule harvest_nothing_new)
  have a: "\<not> cap_reached mc (fst (harvest mc hs seen 0))" using Suc.prems(2) by (simp add: h)
  have b: "\<not> idle_limit \<le> next_idle (snd (harvest mc hs seen 0)) idle"
    using Suc.prems(1) by (simp add: h idle_limit_def next_idle_def)
  have c: "scroll_by eng n = None" using Suc.prems(4) by force
  have links: "\<forall>i \<le> j. \<exists>hs. eval_links eng (n + 1 + i) = Inr hs \<and> reel_links hs \<subseteq> seen"
  proof (intro allI impI)
    fix i assume "i \<le> j"
    then have "Suc i \<le> Suc j" by simp
    with Suc.prems(3) have "\<exists>hs. eval_links eng (n + Suc i) = Inr hs \<and> reel_links hs \<subseteq> seen"
      by blast
    then show "\<exists>hs. eval_links eng (n + 1 + i) = Inr hs \<and> reel_links hs \<subseteq> seen" by simp
  qed
  have scrolls: "\<forall>i < j. scroll_by eng (n + 1 + i) = None"
  proof (intro allI impI)
    fix i assume "i < j"
    then have "Suc i < Suc j" by simp
    with Suc.prems(4) have "scroll_by eng (n + Suc i) = None" by blast
    then show "scroll_by eng (n + 1 + i) = None" by simp
  qed
  from Suc.prems(1) have "idle + 1 + j = 14" by simp
  from Suc.IH [OF this Suc.prems(2) links scrolls]
  have "collect_loop eng mc seen (idle + 1) (n + 1) = Some (n + 1 + j, Inr seen)" .
  with collect_loop_continue [OF hs(1) a b c] show ?case
    by (simp add: h next_idle_def)
qed

lemma round_resets_idle:
  "eval_links eng n = Inr hs \<Longrightarrow> \<not> reel_links hs \<subseteq> seen \<Longrightarrow>
   \<not> cap_reached mc (fst (harvest mc hs seen 0)) \<Longrightarrow> scroll_by eng n = None \<Longrightarrow>
   collect_loop eng mc seen idle n = collect_loop eng mc (fst (harvest mc hs seen 0)) 0 (n + 1)"
proof -
  assume e: "eval_links eng n = Inr hs" and n: "\<not> reel_links hs \<subseteq> seen"
    and c: "\<not> cap_reached mc (fst (harvest mc hs seen 0))" and s: "scroll_by eng n = None"
  from harvest_something_new [OF n, of 0 mc]
  have z: "next_idle (snd (harvest mc hs seen 0)) idle = 0" by (simp add: next_idle_def)
  then have "\<not> idle_limit \<le> next_idle (snd (harvest mc hs seen 0)) idle"
    by (simp add: idle_limit_def)
  from collect_loop_continue [OF e c this s] show ?thesis unfolding z .
qed

text \<open>
  C2. From any state of the loop in which the maximum is not reached: when the idle
  counter stands at \<open>idle\<close> and the next \<open>15 - idle\<close> rounds (the rounds \<open>n\<close> to \<open>n + j\<close> with
  \<open>idle + j = 14\<close>; fifteen rounds for \<open>idle = 0\<close>) each harvest no link that is not yet in the
  set, the scrolls between them succeeding, the loop ends successfully after the last of
  these rounds and returns the set collected so far, the maximum not reached. A round that
  adds at least one new link, and after which the loop goes on, continues with the idle
  counter at zero whatever the counter was before.
\<close>

theorem idle_termination:
  "(\<not> cap_reached mc seen \<and> idle + j = 14
      \<and> (\<forall>i \<le> j. \<exists>hs. eval_links eng (n + i) = Inr hs \<and> reel_links hs \<subseteq> seen)
      \<and> (\<forall>i < j. scroll_by eng (n + i) = None)
      \<longrightarrow> collect_loop eng mc seen idle n = Some (n + j, Inr seen))
   \<and> (eval_links eng n = Inr hs \<and> \<not> reel_links hs \<subseteq> seen
      \<and> \<not> cap_reached mc (fst (harvest mc hs seen 0)) \<and> scroll_by eng n = None
      \<longrightarrow> collect_loop eng mc seen idle n
          = collect_loop eng mc (fst (harvest mc hs seen 0)) 0 (n + 1))"
  using idle_run [of idle j mc seen eng n] round_resets_idle [of eng n hs seen mc idle]
  by blast

theorem idle_termination_witness:
  "collect_loop (feed_engine []) (Some 5) {} 0 0 = Some (14, Inr {})
   \<and> collect_loop (feed_engine [''/reel/a'']) (Some 5) {} 7 0
     = collect_loop (feed_engine [''/reel/a'']) (Some 5) {''/reel/a/''} 0 1"
proof -
  have a: "collect_loop (feed_engine []) (Some 5) {} 0 0 = Some (14, Inr {})"
    using idle_termination [of "Some 5" "{}" 0 14 "feed_engine []" 0]
    by (simp add: feed_engine_def stub_engine_def cap_reached_def reel_links_Nil)
  have b: "collect_loop (feed_engine [''/reel/a'']) (Some 5) {} 7 0
     = collect_loop (feed_engine [''/reel/a'']) (Some 5) {''/reel/a/''} 0 1"
    using idle_termination [of "Some 5" "{}" 7 _ "feed_engine [''/reel/a'']" 0 "[''/reel/a'']"]
    by (simp add: feed_engine_def stub_engine_def cap_reached_def reel_links_Cons
          reel_links_Nil canonical_def py_endswith_def)
  from a b show ?thesis by (rule conjI)
qed

lemma cap_zero: "cap_reached (Some 0) s = cap_reached None s"
  by (simp add: cap_reached_def)

lemma loop_cap_irrelevant_Some:
  assumes same: "\<And>s. cap_reached mc s = cap_reached mc' s"
    and r: "collect_loop eng mc seen idle n = Some y"
  shows "collect_loop eng mc' seen idle n = Some y"
proof -
  have "e0 = eng \<and> m0 = mc \<longrightarrow> collect_loop eng mc' s0 i0 n0 = Some y0"
    if r0: "collect_loop e0 m0 s0 i0 n0 = Some y0" for e0 m0 s0 i0 n0 y0
  proof (rule collect_loop.raw_induct
      [where P = "\<lambda>e m s i n y. e = eng \<and> m = mc \<longrightarrow> collect_loop eng mc' s i n = Some y",
        OF _ r0])
    fix f eng' m' seen idle n y
    assume IH: "\<And>a b c d e y. f a b c d e = Some y \<Longrightarrow>
        a = eng \<and> b = mc \<longrightarrow> collect_loop eng mc' c d e = Some y"
      and body: "(case eval_links eng' n of
          Inl e \<Rightarrow> Some (n, Inl e)
        | Inr hrefs \<Rightarrow>
            (case harvest m' hrefs seen 0 of
               (seen1, new) \<Rightarrow>
                 if cap_reached m' seen1 then Some (n, Inr seen1)
                 else if idle_limit \<le> next_idle new idle then Some (n, Inr seen1)
                 else (case scroll_by eng' n of
                         Some e \<Rightarrow> Some (n, Inl e)
                       | None \<Rightarrow> f eng' m' seen1 (next_idle new idle) (n + 1)))) = Some y"
    show "eng' = eng \<and> m' = mc \<longrightarrow> collect_loop eng mc' seen idle n = Some y"
    proof
      assume eq: "eng' = eng \<and> m' = mc"
      show "collect_loop eng mc' seen idle n = Some y"
      proof (cases "eval_links eng n")
        case (Inl e)
        with body eq show ?thesis by (subst collect_loop.simps) simp
      next
        case (Inr hs)
        obtain s1 new where h: "harvest mc hs seen 0 = (s1, new)"
          by (cases "harvest mc hs seen 0")
        have h': "harvest mc' hs seen 0 = (s1, new)"
          using harvest_cap_irrelevant [of mc mc' hs seen 0] same h by simp
        show ?thesis
        proof (cases "cap_reached mc s1 \<or> idle_limit \<le> next_idle new idle")
          case True
          with body eq Inr h have "y = (n, Inr s1)" by (auto split: if_splits)
          with True Inr h' same [of s1] show ?thesis
            by (subst collect_loop.simps) auto
        next
          case False
          show ?thesis
          proof (cases "scroll_by eng n")
            case None
            with body eq Inr h False
            have "f eng mc s1 (next_idle new idle) (n + 1) = Some y" by simp
            from IH [OF this]
            have "collect_loop eng mc' s1 (next_idle new idle) (n + 1) = Some y" by simp
            with False Inr h' None same [of s1] show ?thesis
              by (subst collect_loop.simps) simp
          next
            case (Some e)
            with body eq Inr h False have "y = (n, Inl e)" by simp
            with False Inr h' Some same [of s1] show ?thesis
              by (subst collect_loop.simps) simp
          qed
        qed
      qed
    qed
  qed
  with r show ?thesis by blast
qed

lemma loop_cap_irrelevant:
  assumes same: "\<And>s. cap_reached mc s = cap_reached mc' s"
  shows "collect_loop eng mc seen idle n = collect_loop eng mc' seen idle n"
proof (cases "collect_loop eng mc seen idle n")
  case None
  show ?thesis
  proof (cases "collect_loop eng mc' seen idle n")
    case n: None
    with None show ?thesis by simp
  next
    case (Some y)
    from loop_cap_irrelevant_Some [OF same [symmetric] Some] None show ?thesis by simp
  qed
next
  case (Some y)
  from loop_cap_irrelevant_Some [OF same Some] Some show ?thesis by simp
qed

lemma feed_links: "eval_links (feed_engine hrefs) n = (if n = 0 then Inr hrefs else Inr [])"
  by (simp add: feed_engine_def stub_engine_def)

lemma feed_scroll: "scroll_by (feed_engine hrefs) n = None"
  by (simp add: feed_engine_def stub_engine_def)

lemma feed_run:
  assumes c: "\<not> cap_reached mc (reel_links hrefs)"
  shows "collect_loop (feed_engine hrefs) mc {} 0 0
     = Some (if reel_links hrefs = {} then 14 else 15, Inr (reel_links hrefs))"
proof (cases "reel_links hrefs = {}")
  case True
  have "collect_loop (feed_engine hrefs) mc {} 0 0 = Some (0 + 14, Inr {})"
  proof (rule idle_run)
    show "0 + 14 = (14::nat)" by simp
    show "\<not> cap_reached mc {}" using c True by simp
    show "\<forall>i\<le>14. \<exists>hs. eval_links (feed_engine hrefs) (0 + i) = Inr hs \<and> reel_links hs \<subseteq> {}"
      using True by (simp add: feed_links reel_links_Nil)
    show "\<forall>i<14. scroll_by (feed_engine hrefs) (0 + i) = None"
      by (simp add: feed_scroll)
  qed
  with True show ?thesis by simp
next
  case False
  have "harvest mc hrefs {} 0 = harvest None hrefs {} 0"
    using c by (intro harvest_below_cap) simp_all
  moreover have "fst (harvest None hrefs {} 0) = {} \<union> reel_links hrefs"
    by (rule harvest_all) (simp add: cap_reached_def)
  ultimately have h: "fst (harvest mc hrefs {} 0) = reel_links hrefs" by simp
  have "collect_loop (feed_engine hrefs) mc {} 0 0
      = collect_loop (feed_engine hrefs) mc (fst (harvest mc hrefs {} 0)) 0 (0 + 1)"
  proof (rule round_resets_idle)
    show "eval_links (feed_engine hrefs) 0 = Inr hrefs" by (simp add: feed_links)
    show "\<not> reel_links hrefs \<subseteq> {}" using False by simp
    show "\<not> cap_reached mc (fst (harvest mc hrefs {} 0))" using c h by simp
    show "scroll_by (feed_engine hrefs) 0 = None" by (rule feed_scroll)
  qed
  also have "\<dots> = collect_loop (feed_engine hrefs) mc (reel_links hrefs) 0 1"
    by (simp add: h)
  also have "\<dots> = Some (1 + 14, Inr (reel_links hrefs))"
  proof (rule idle_run)
    show "0 + 14 = (14::nat)" by simp
    show "\<not> cap_reached mc (reel_links hrefs)" by (rule c)
    show "\<forall>i\<le>14. \<exists>hs. eval_links (feed_engine hrefs) (1 + i) = Inr hs
        \<and> reel_links hs \<subseteq> reel_links hrefs"
      by (simp add: feed_links reel_links_Nil)
    show "\<forall>i<14. scroll_by (feed_engine hrefs) (1 + i) = None"
      by (simp add: feed_scroll)
  qed
  finally show ?thesis using False by simp
qed

lemma reel_links_numbered:
  "reel_links (numbered_links N) = (\<lambda>i. ''/reel/'' @ replicate i (CHR ''x'') @ ''/'') ` {0..<N}"
  by (auto simp: reel_links_def numbered_links_def canonical_def py_endswith_def)

lemma card_numbered: "card (reel_links (numbered_links N)) = N"
proof -
  have "inj_on (\<lambda>i. ''/reel/'' @ replicate i (CHR ''x'') @ ''/'') {0..<N}"
    by (rule inj_onI) (simp add: replicate_eq_replicate)
  then show ?thesis unfolding reel_links_numbered by (simp add: card_image)
qed

lemma many_links_uncapped:
  "\<exists>eng k S. collect_loop eng None {} 0 0 = Some (k, Inr S) \<and> N \<le> card S"
proof (intro exI conjI)
  show "collect_loop (feed_engine (numbered_links N)) None {} 0 0
      = Some (if reel_links (numbered_links N) = {} then 14 else 15,
              Inr (reel_links (numbered_links N)))"
    by (rule feed_run) (simp add: cap_reached_def)
  show "N \<le> card (reel_links (numbered_links N))" by (simp add: card_numbered)
qed

lemma collector_cap_irrelevant:
  assumes same: "\<And>s. cap_reached mc s = cap_reached mc' s"
  shows "playwright_collect_reels eng username mc ch w
     = playwright_collect_reels eng username mc' ch w"
  unfolding playwright_collect_reels_def collect_body_def
  by (simp only: loop_cap_irrelevant [OF same])

lemma feed_example:
  "\<not> cap_reached mc {''/reel/a/'', ''/reel/b/''} \<Longrightarrow> collect_loop (feed_engine [''/reel/a'', ''/reel/b/'']) mc {} 0 0 = Some (15, Inr {''/reel/a/'', ''/reel/b/''})"
  using feed_run [of mc "[''/reel/a'', ''/reel/b/'']"]
  by (simp add: reel_links_Cons reel_links_Nil canonical_def py_endswith_def)

text \<open>
  C10. A maximum of 0 behaves in every state of the loop, and for the collector as a
  whole, exactly as no maximum. A run with maximum 0 that returns a set has made at least
  14 scrolls (15 rounds, the idle limit) and returns every canonical reel link harvested in
  its rounds, so it does not stop at once with nothing; and for every number \<open>N\<close> there is a
  page on which it returns at least \<open>N\<close> links.
\<close>

theorem zero_maximum_is_no_cap:
  "collect_loop eng (Some 0) seen idle n = collect_loop eng None seen idle n
   \<and> playwright_collect_reels eng username (Some 0) ch w
       = playwright_collect_reels eng username None ch w
   \<and> (collect_loop eng (Some 0) {} 0 0 = Some (k, Inr S) \<longrightarrow>
        14 \<le> k \<and> S = discovered eng 0 k)
   \<and> (\<exists>eng' k' S'. collect_loop eng' (Some 0) {} 0 0 = Some (k', Inr S') \<and> N \<le> card S')"
proof (intro conjI impI)
  show "collect_loop eng (Some 0) seen idle n = collect_loop eng None seen idle n"
    by (rule loop_cap_irrelevant) (rule cap_zero)
  show "playwright_collect_reels eng username (Some 0) ch w
       = playwright_collect_reels eng username None ch w"
    by (rule collector_cap_irrelevant) (rule cap_zero)
  show "14 \<le> k" if "collect_loop eng (Some 0) {} 0 0 = Some (k, Inr S)"
    using run_uncapped [OF that] by (simp add: cap_reached_def)
  show "S = discovered eng 0 k" if "collect_loop eng (Some 0) {} 0 0 = Some (k, Inr S)"
    using run_uncapped [OF that] by (simp add: cap_reached_def)
  show "\<exists>eng' k' S'. collect_loop eng' (Some 0) {} 0 0 = Some (k', Inr S') \<and> N \<le> card S'"
    using many_links_uncapped [of N]
    by (simp only: loop_cap_irrelevant [OF cap_zero])
qed

theorem zero_maximum_is_no_cap_witness:
  "collect_loop (feed_engine [''/reel/a'', ''/reel/b/'']) (Some 0) {} 0 0 = Some (15, Inr {''/reel/a/'', ''/reel/b/''})
   \<and> (14::nat) \<le> 15 \<and> {''/reel/a/'', ''/reel/b/''} = discovered (feed_engine [''/reel/a'', ''/reel/b/'']) 0 15"
proof -
  have r: "collect_loop (feed_engine [''/reel/a'', ''/reel/b/'']) (Some 0) {} 0 0 = Some (15, Inr {''/reel/a/'', ''/reel/b/''})"
    by (rule feed_example) (simp add: cap_reached_def)
  from zero_maximum_is_no_cap [of "feed_engine [''/reel/a'', ''/reel/b/'']" "{}" 0 0 "''u''" None fresh_world 15 "{''/reel/a/'', ''/reel/b/''}" 0] r
  show ?thesis by blast
qed

section \<open>Reel Collector: the output list\<close>

lemma collector_result:
  "playwright_collect_reels eng username mc ch w = Some (w', Inr out) \<Longrightarrow>
   \<exists>k S. collect_loop eng mc {} 0 0 = Some (k, Inr S) \<and> out = sorted_list_of_set S"
  by (auto simp: playwright_collect_reels_def collect_body_def
        split: option.splits sum.splits prod.splits)

lemma feed_collector:
  "collect_loop (feed_engine hrefs) mc {} 0 0 = Some (k, Inr S) \<Longrightarrow>
   playwright_collect_reels (feed_engine hrefs) username mc None fresh_world
     = Some (\<lparr>rendered_fetches = 0, engine_starts = 1, engine_stops = 1, context_closes = 1, browser_closes = 1\<rparr>, Inr (sorted_list_of_set S))"
  by (simp add: playwright_collect_reels_def collect_body_def open_page_def
        install_cookies_def parse_cookies_def close_session_def Let_def feed_engine_def
        stub_engine_def fresh_world_def)

lemma feed_first_link:
  "m \<noteq> 0 \<Longrightarrow> m \<le> 1 \<Longrightarrow> collect_loop (feed_engine [''/reel/a'', ''/reel/b/'']) (Some m) {} 0 0 = Some (0, Inr {''/reel/a/''})"
  by (subst collect_loop.simps)
     (simp add: feed_links cap_reached_def canonical_def py_endswith_def)

lemma feed_discovered_0: "discovered (feed_engine [''/reel/a'', ''/reel/b/'']) 0 0 = {''/reel/a/'', ''/reel/b/''}"
  by (simp add: discovered_single batch_def feed_links reel_links_Cons reel_links_Nil
        canonical_def py_endswith_def)

lemma feed_discovered_15: "discovered (feed_engine [''/reel/a'', ''/reel/b/'']) 0 15 = {''/reel/a/'', ''/reel/b/''}"
proof -
  have "collect_loop (feed_engine [''/reel/a'', ''/reel/b/'']) None {} 0 0 = Some (15, Inr {''/reel/a/'', ''/reel/b/''})"
    by (rule feed_example) (simp add: cap_reached_def)
  from run_uncapped [OF this] show ?thesis by (simp add: cap_reached_def)
qed

lemma output_of_set:
  assumes "finite S"
  shows "sorted (sorted_list_of_set S) \<and> distinct (sorted_list_of_set S)
    \<and> sorted_list_of_set S = sorted_list_of_set (set (sorted_list_of_set S))
    \<and> set (sorted_list_of_set S) = S \<and> length (sorted_list_of_set S) = card S"
  using assms by simp

lemma capped_run_count:
  assumes r: "collect_loop eng (Some m) {} 0 0 = Some (k, Inr S)" and m: "0 < m"
  shows "card S = spec_capped_count (Some m) (card (discovered eng 0 k))"
proof -
  from run_bounds [OF r] have b: "finite S" "S \<subseteq> discovered eng 0 k" by simp_all
  from run_card_cap [OF r m] m have le: "int (card S) \<le> m" by (simp add: cap_reached_def)
  show ?thesis
  proof (cases "cap_reached (Some m) S")
    case True
    with le have "int (card S) = m" by (simp add: cap_reached_def)
    moreover from b(2) have "card S \<le> card (discovered eng 0 k)"
      by (intro card_mono) (simp_all add: finite_discovered)
    ultimately show ?thesis by (auto simp: spec_capped_count_def)
  next
    case False
    with run_uncapped [OF r] have "S = discovered eng 0 k" by simp
    moreover from False m have "int (card S) < m" by (simp add: cap_reached_def)
    ultimately show ?thesis by (auto simp: spec_capped_count_def)
  qed
qed

text \<open>
  C3, as the claim states it, fails. On a page that shows the two links \<open>/reel/a\<close> and
  \<open>/reel/b/\<close> and nothing more, a maximum of 0 returns both links, where the claim caps the
  length at 0; and a maximum of -1 returns one link.
\<close>

theorem cap_zero_counterexample:
  "playwright_collect_reels (feed_engine [''/reel/a'', ''/reel/b/'']) ''u'' (Some 0) None fresh_world
     = Some (\<lparr>rendered_fetches = 0, engine_starts = 1, engine_stops = 1, context_closes = 1, browser_closes = 1\<rparr>, Inr [''/reel/a/'', ''/reel/b/''])
   \<and> collect_loop (feed_engine [''/reel/a'', ''/reel/b/'']) (Some 0) {} 0 0 = Some (15, Inr {''/reel/a/'', ''/reel/b/''})
   \<and> length [''/reel/a/'', ''/reel/b/''] \<noteq> spec_capped_count (Some 0) (card (discovered (feed_engine [''/reel/a'', ''/reel/b/'']) 0 15))
   \<and> playwright_collect_reels (feed_engine [''/reel/a'', ''/reel/b/'']) ''u'' (Some (- 1)) None fresh_world
     = Some (\<lparr>rendered_fetches = 0, engine_starts = 1, engine_stops = 1, context_closes = 1, browser_closes = 1\<rparr>, Inr [''/reel/a/''])
   \<and> collect_loop (feed_engine [''/reel/a'', ''/reel/b/'']) (Some (- 1)) {} 0 0 = Some (0, Inr {''/reel/a/''})
   \<and> length [''/reel/a/''] \<noteq> spec_capped_count (Some (- 1)) (card (discovered (feed_engine [''/reel/a'', ''/reel/b/'']) 0 0))"
proof -
  have z: "collect_loop (feed_engine [''/reel/a'', ''/reel/b/'']) (Some 0) {} 0 0 = Some (15, Inr {''/reel/a/'', ''/reel/b/''})"
    by (rule feed_example) (simp add: cap_reached_def)
  have n: "collect_loop (feed_engine [''/reel/a'', ''/reel/b/'']) (Some (- 1)) {} 0 0 = Some (0, Inr {''/reel/a/''})"
    by (rule feed_first_link) simp_all
  have s2: "sorted_list_of_set {''/reel/a/'', ''/reel/b/''} = [''/reel/a/'', ''/reel/b/'']"
    by (simp add: less_char_def less_eq_char_def)
  show ?thesis
    using feed_collector [OF z, of "''u''"] feed_collector [OF n, of "''u''"] z n
    by (simp add: s2 feed_discovered_15 feed_discovered_0 spec_capped_count_def)
qed

text \<open>
  C3, amended. Whenever the Reel Collector returns a list, the list is sorted and without
  duplicates, and is the sorted list of its own set of links, whatever the order of
  discovery; every link in it was discovered in a round of the run. With no maximum, or a
  positive one, its length is the number of distinct canonical links discovered in the
  rounds of the run, capped at the maximum if there is one; with a maximum of 0 it is that
  number uncapped, and the list holds every link discovered.
\<close>

theorem collector_output_sorted_distinct_capped:
  "playwright_collect_reels eng username mc ch w = Some (w', Inr out) \<longrightarrow>
   sorted out \<and> distinct out \<and> out = sorted_list_of_set (set out)
   \<and> (\<exists>k. collect_loop eng mc {} 0 0 = Some (k, Inr (set out))
        \<and> set out \<subseteq> discovered eng 0 k
        \<and> (mc = None \<or> (\<exists>m. mc = Some m \<and> 0 < m) \<longrightarrow>
             length out = spec_capped_count mc (card (discovered eng 0 k)))
        \<and> (mc = None \<or> mc = Some 0 \<longrightarrow>
             set out = discovered eng 0 k \<and> length out = card (discovered eng 0 k)))"
proof
  assume "playwright_collect_reels eng username mc ch w = Some (w', Inr out)"
  from collector_result [OF this] obtain k S
    where r: "collect_loop eng mc {} 0 0 = Some (k, Inr S)" and out: "out = sorted_list_of_set S"
    by blast
  from run_bounds [OF r] have b: "finite S" "S \<subseteq> discovered eng 0 k" by simp_all
  note o = output_of_set [OF b(1), folded out]
  have u: "S = discovered eng 0 k" if "mc = None \<or> mc = Some 0"
    using run_uncapped [OF r] that by (auto simp: cap_reached_def)
  have c: "length out = spec_capped_count mc (card (discovered eng 0 k))"
    if "mc = None \<or> (\<exists>m. mc = Some m \<and> 0 < m)"
  proof (cases mc)
    case None
    with u o show ?thesis by (simp add: spec_capped_count_def)
  next
    case (Some m)
    with that have "0 < m" by simp
    from capped_run_count [OF r [unfolded Some] this] o Some show ?thesis by simp
  qed
  from o r b u c
  show "sorted out \<and> distinct out \<and> out = sorted_list_of_set (set out)
   \<and> (\<exists>k. collect_loop eng mc {} 0 0 = Some (k, Inr (set out))
        \<and> set out \<subseteq> discovered eng 0 k
        \<and> (mc = None \<or> (\<exists>m. mc = Some m \<and> 0 < m) \<longrightarrow>
             length out = spec_capped_count mc (card (discovered eng 0 k)))
        \<and> (mc = None \<or> mc = Some 0 \<longrightarrow>
             set out = discovered eng 0 k \<and> length out = card (discovered eng 0 k)))"
    by (intro conjI exI [of _ k]) auto
qed

theorem collector_output_sorted_distinct_capped_witness:
  "sorted [''/reel/a/''] \<and> distinct [''/reel/a/'']
   \<and> (\<exists>k. collect_loop (feed_engine [''/reel/a'', ''/reel/b/'']) (Some 1) {} 0 0 = Some (k, Inr (set [''/reel/a/'']))
        \<and> length [''/reel/a/''] = spec_capped_count (Some 1) (card (discovered (feed_engine [''/reel/a'', ''/reel/b/'']) 0 k)))"
proof -
  have n: "collect_loop (feed_engine [''/reel/a'', ''/reel/b/'']) (Some 1) {} 0 0 = Some (0, Inr {''/reel/a/''})"
    by (rule feed_first_link) simp_all
  from feed_collector [OF n, of "''u''"]
  have "playwright_collect_reels (feed_engine [''/reel/a'', ''/reel/b/'']) ''u'' (Some 1) None fresh_world
     = Some (\<lparr>rendered_fetches = 0, engine_starts = 1, engine_stops = 1, context_closes = 1, browser_closes = 1\<rparr>, Inr [''/reel/a/''])"
    by simp
  with collector_output_sorted_distinct_capped
    [of "feed_engine [''/reel/a'', ''/reel/b/'']" "''u''" "Some 1" None fresh_world "\<lparr>rendered_fetches = 0, engine_starts = 1, engine_stops = 1, context_closes = 1, browser_closes = 1\<rparr>" "[''/reel/a/'']"]
  show ?thesis by auto
qed

section \<open>Reel Collector: stopping at the maximum\<close>






end
